theory Spec2Isabelle
  imports Complex_Main "HOL-Library.Word"
begin

section \<open>Grid constants (GridDefines.h, integer macros)\<close>

text \<open>
  The integer macros of GridDefines.h. They are C++ \<open>int\<close> literals; where one of them
  instantiates the \<open>uint32\<close> template parameter \<open>LIMIT\<close> of \<open>CoordPair\<close> it is converted
  with \<open>word_of_int\<close>.
\<close>

definition MAX_NUMBER_OF_CELLS :: int where
  "MAX_NUMBER_OF_CELLS = 8"

definition MAX_NUMBER_OF_GRIDS :: int where
  "MAX_NUMBER_OF_GRIDS = 64"

definition CENTER_GRID_ID :: int where
  "CENTER_GRID_ID = MAX_NUMBER_OF_GRIDS div 2"

definition CENTER_GRID_CELL_ID :: int where
  "CENTER_GRID_CELL_ID = MAX_NUMBER_OF_CELLS * MAX_NUMBER_OF_GRIDS div 2"

definition TOTAL_NUMBER_OF_CELLS_PER_MAP :: int where
  "TOTAL_NUMBER_OF_CELLS_PER_MAP = MAX_NUMBER_OF_GRIDS * MAX_NUMBER_OF_CELLS"

section \<open>CoordPair\<close>

text \<open>
  \<open>template<uint32 LIMIT> struct CoordPair\<close>: two \<open>uint32\<close> fields. The template
  parameter is an explicit first argument of every member function that reads it; the
  mutating members return the updated pair. All arithmetic is that of \<open>uint32\<close>, i.e.
  modulo \<open>2 ^ 32\<close>.
\<close>

type_synonym uint32 = "32 word"

record CoordPair =
  x_coord :: uint32
  y_coord :: uint32

definition dec_x :: "CoordPair \<Rightarrow> uint32 \<Rightarrow> CoordPair" where
  "dec_x p val =
     (if x_coord p > val then p\<lparr>x_coord := x_coord p - val\<rparr> else p\<lparr>x_coord := 0\<rparr>)"

definition inc_x :: "uint32 \<Rightarrow> CoordPair \<Rightarrow> uint32 \<Rightarrow> CoordPair" where
  "inc_x LIMIT p val =
     (if x_coord p + val < LIMIT then p\<lparr>x_coord := x_coord p + val\<rparr>
      else p\<lparr>x_coord := LIMIT - 1\<rparr>)"

definition dec_y :: "CoordPair \<Rightarrow> uint32 \<Rightarrow> CoordPair" where
  "dec_y p val =
     (if y_coord p > val then p\<lparr>y_coord := y_coord p - val\<rparr> else p\<lparr>y_coord := 0\<rparr>)"

definition inc_y :: "uint32 \<Rightarrow> CoordPair \<Rightarrow> uint32 \<Rightarrow> CoordPair" where
  "inc_y LIMIT p val =
     (if y_coord p + val < LIMIT then p\<lparr>y_coord := y_coord p + val\<rparr>
      else p\<lparr>y_coord := LIMIT - 1\<rparr>)"

definition IsCoordValid :: "uint32 \<Rightarrow> CoordPair \<Rightarrow> bool" where
  "IsCoordValid LIMIT p \<longleftrightarrow> x_coord p < LIMIT \<and> y_coord p < LIMIT"


definition GetId :: "uint32 \<Rightarrow> CoordPair \<Rightarrow> uint32" where
  "GetId LIMIT p = y_coord p * LIMIT + x_coord p"

text \<open>The two instantiations: \<open>GridCoord\<close> and \<open>CellCoord\<close>.\<close>

definition GridLimit :: uint32 where
  "GridLimit = word_of_int MAX_NUMBER_OF_GRIDS"

definition CellLimit :: uint32 where
  "CellLimit = word_of_int TOTAL_NUMBER_OF_CELLS_PER_MAP"

section \<open>Binary floating point\<close>

text \<open>
  The coordinate functions compute in the C++ types \<open>float\<close> and \<open>double\<close>, taken here as
  IEEE 754 binary32 and binary64 with round-to-nearest, ties-to-even, every operation
  rounded to the precision of its type. A finite value is the rational number it denotes;
  an arithmetic operation is the exact operation on rationals followed by rounding to
  24 (binary32) or 53 (binary64) significant bits.

  \<open>expo r\<close> is the binary exponent of \<open>r \<noteq> 0\<close>: the integer \<open>e\<close> with
  \<open>2 ^ e \<le> \<bar>r\<bar> < 2 ^ (e + 1)\<close>. It is computed by repeated halving (for \<open>\<bar>r\<bar> \<ge> 1\<close>)
  or doubling (for \<open>\<bar>r\<bar> < 1\<close>).
\<close>

function expo_up :: "rat \<Rightarrow> int" where
  "expo_up r = (if r < 2 then 0 else expo_up (r / 2) + 1)"
  by pat_completeness auto

termination
proof (relation "measure (\<lambda>r. nat \<lfloor>r\<rfloor>)")
  show "wf (measure (\<lambda>r::rat. nat \<lfloor>r\<rfloor>))"
    by simp
next
  fix r :: rat
  assume "\<not> r < 2"
  then have "2 \<le> r"
    by simp
  then have "\<lfloor>r / 2\<rfloor> < \<lfloor>r\<rfloor>" "0 < \<lfloor>r\<rfloor>"
    by (simp_all add: floor_less_iff le_floor_iff, linarith)
  then show "(r / 2, r) \<in> measure (\<lambda>r. nat \<lfloor>r\<rfloor>)"
    by simp
qed

function expo_down :: "rat \<Rightarrow> int" where
  "expo_down r = (if r \<le> 0 \<or> 1 \<le> r then 0 else expo_down (2 * r) - 1)"
  by pat_completeness auto

termination
proof (relation "measure (\<lambda>r. nat \<lceil>1 / r\<rceil>)")
  show "wf (measure (\<lambda>r::rat. nat \<lceil>1 / r\<rceil>))"
    by simp
next
  fix r :: rat
  assume "\<not> (r \<le> 0 \<or> 1 \<le> r)"
  then have r: "0 < r" "r < 1"
    by simp_all
  then have "1 < 1 / r"
    by simp
  then have c: "2 \<le> \<lceil>1 / r\<rceil>"
    by (simp add: le_ceiling_iff)
  have "1 / (2 * r) = (1 / r) / 2"
    by simp
  also have "\<dots> \<le> of_int \<lceil>1 / r\<rceil> / 2"
    by (simp add: divide_right_mono)
  finally have "\<lceil>1 / (2 * r)\<rceil> \<le> \<lceil>(of_int \<lceil>1 / r\<rceil> :: rat) / 2\<rceil>"
    by (rule ceiling_mono)
  also have "\<dots> < \<lceil>1 / r\<rceil>"
    using c by (simp add: ceiling_less_iff)
  finally have "\<lceil>1 / (2 * r)\<rceil> < \<lceil>1 / r\<rceil>" .
  with c r show "(2 * r, r) \<in> measure (\<lambda>r. nat \<lceil>1 / r\<rceil>)"
    by simp
qed

declare expo_up.simps [simp del] expo_down.simps [simp del]

definition expo :: "rat \<Rightarrow> int" where
  "expo r = (if 1 \<le> \<bar>r\<bar> then expo_up \<bar>r\<bar> else expo_down \<bar>r\<bar>)"

text \<open>Rounding a rational to the nearest integer, a tie going to the even neighbour.\<close>

definition round_even :: "rat \<Rightarrow> int" where
  "round_even q =
     (let f = \<lfloor>q\<rfloor>; t = q - of_int f
      in if t < 1 / 2 then f
         else if 1 / 2 < t then f + 1
         else if even f then f else f + 1)"

text \<open>
  \<open>rnd p r\<close> rounds \<open>r\<close> to \<open>p\<close> significant bits: the unit in the last place of the
  binade of \<open>r\<close> is \<open>2 ^ (expo r - p + 1)\<close>, and \<open>r\<close> is rounded to the nearest multiple
  of it. The exponent range is not bounded. This is exact for the values that occur: every
  \<open>double\<close> operation below acts on a binary32 input and on the map constants, so that its
  result is 0 or has magnitude between \<open>2 ^ - 160\<close> and \<open>2 ^ 129\<close>, inside the normal
  range of binary64, and the \<open>float\<close> operations act on the map constants and on such
  values, far from the limits of binary32.
\<close>

definition rnd :: "nat \<Rightarrow> rat \<Rightarrow> rat" where
  "rnd p r =
     (if r = 0 then 0
      else let u = 2 powi (expo r - int p + 1)
           in of_int (round_even (r / u)) * u)"

definition round32 :: "rat \<Rightarrow> rat" where
  "round32 = rnd 24"

definition round64 :: "rat \<Rightarrow> rat" where
  "round64 = rnd 53"

text \<open>
  The finite values of binary32: 24 significant bits, exponent at most 127, and a multiple
  of \<open>2 ^ - 149\<close> (subnormal numbers included). The theorems on the coordinate functions
  hold for every finite rational argument, hence for every \<open>float\<close>; the concrete inputs
  of the counterexamples are shown to be binary32 values.
\<close>

definition is_float32 :: "rat \<Rightarrow> bool" where
  "is_float32 r \<longleftrightarrow>
     r = 0 \<or> (expo r \<le> 127 \<and>
       (let q = r / 2 powi (max (expo r - 23) (- 149)) in q = of_int \<lfloor>q\<rfloor>))"

text \<open>
  A value of type \<open>float\<close>: finite, an infinity, or a NaN. Conversion of a \<open>float\<close> to
  \<open>double\<close> is exact, so both types share this representation. \<open>isfinite\<close>, \<open>fabs\<close>,
  unary minus and the comparisons follow IEEE 754: every comparison with a NaN is false.
\<close>

datatype cfloat = Finite rat | PInf | NInf | NaN

fun isfinite :: "cfloat \<Rightarrow> bool" where
  "isfinite (Finite r) = True"
| "isfinite _ = False"

fun fabs :: "cfloat \<Rightarrow> cfloat" where
  "fabs (Finite r) = Finite \<bar>r\<bar>"
| "fabs PInf = PInf"
| "fabs NInf = PInf"
| "fabs NaN = NaN"

fun f_neg :: "cfloat \<Rightarrow> cfloat" where
  "f_neg (Finite r) = Finite (- r)"
| "f_neg PInf = NInf"
| "f_neg NInf = PInf"
| "f_neg NaN = NaN"

fun f_le :: "cfloat \<Rightarrow> cfloat \<Rightarrow> bool" where
  "f_le NaN _ = False"
| "f_le _ NaN = False"
| "f_le (Finite a) (Finite b) = (a \<le> b)"
| "f_le NInf _ = True"
| "f_le _ PInf = True"
| "f_le _ _ = False"

fun f_lt :: "cfloat \<Rightarrow> cfloat \<Rightarrow> bool" where
  "f_lt NaN _ = False"
| "f_lt _ NaN = False"
| "f_lt (Finite a) (Finite b) = (a < b)"
| "f_lt PInf _ = False"
| "f_lt _ NInf = False"
| "f_lt _ _ = True"

definition f_gt :: "cfloat \<Rightarrow> cfloat \<Rightarrow> bool" where
  "f_gt a b = f_lt b a"

section \<open>Grid constants (GridDefines.h, float macros)\<close>

text \<open>
  \<open>SIZE_OF_GRIDS\<close> is the literal \<open>533.3333f\<close>, i.e. the binary32 value nearest to the
  decimal 533.3333. The other macros are \<open>float\<close> expressions over it; an \<open>int\<close> operand
  is converted to \<open>float\<close> and the operation is rounded to binary32.
\<close>

definition SIZE_OF_GRIDS :: rat where
  "SIZE_OF_GRIDS = round32 (5333333 / 10000)"

definition CENTER_GRID_OFFSET :: rat where
  "CENTER_GRID_OFFSET = round32 (SIZE_OF_GRIDS / 2)"

definition SIZE_OF_GRID_CELL :: rat where
  "SIZE_OF_GRID_CELL = round32 (SIZE_OF_GRIDS / of_int MAX_NUMBER_OF_CELLS)"

definition CENTER_GRID_CELL_OFFSET :: rat where
  "CENTER_GRID_CELL_OFFSET = round32 (SIZE_OF_GRID_CELL / 2)"

definition MAP_SIZE :: rat where
  "MAP_SIZE = round32 (SIZE_OF_GRIDS * of_int MAX_NUMBER_OF_GRIDS)"

definition MAP_HALFSIZE :: rat where
  "MAP_HALFSIZE = round32 (MAP_SIZE / 2)"

section \<open>Coordinate functions (namespace Trinity)\<close>

text \<open>
  \<open>int(v)\<close> for a finite \<open>double\<close> \<open>v\<close>: truncation toward zero. When the truncated
  value is not representable in the 32-bit \<open>int\<close> the conversion has undefined behaviour,
  modelled by \<open>None\<close>.
\<close>

definition to_int :: "rat \<Rightarrow> int option" where
  "to_int v =
     (let t = (if 0 \<le> v then \<lfloor>v\<rfloor> else \<lceil>v\<rceil>)
      in if - (2 ^ 31) \<le> t \<and> t < 2 ^ 31 then Some t else None)"

text \<open>
  \<open>Compute<RET_TYPE, CENTER_VAL>(x, y, center_offset, size)\<close>. The parameter \<open>size\<close> is
  called \<open>sz\<close> (\<open>size\<close> is a constant of HOL). \<open>center_offset\<close> and \<open>sz\<close> are finite
  at both call sites and are passed as their values. The result is \<open>None\<close> where the
  conversion to \<open>int\<close> is undefined: an infinite or NaN argument, or a zero \<open>sz\<close>, makes
  the converted \<open>double\<close> infinite or NaN. \<open>RET_TYPE(x_val, y_val)\<close> converts the two
  \<open>int\<close> values to \<open>uint32\<close>, i.e. modulo \<open>2 ^ 32\<close>.
\<close>

definition Compute :: "int \<Rightarrow> cfloat \<Rightarrow> cfloat \<Rightarrow> rat \<Rightarrow> rat \<Rightarrow> CoordPair option" where
  "Compute CENTER_VAL x y center_offset sz =
     (case (x, y) of
        (Finite xr, Finite yr) \<Rightarrow>
          if sz = 0 then None
          else
            let x_offset = round64 (round64 (xr - center_offset) / sz);
                y_offset = round64 (round64 (yr - center_offset) / sz)
            in (case (to_int (round64 (round64 (x_offset + of_int CENTER_VAL) + 1 / 2)),
                      to_int (round64 (round64 (y_offset + of_int CENTER_VAL) + 1 / 2))) of
                  (Some x_val, Some y_val) \<Rightarrow>
                    Some \<lparr>x_coord = word_of_int x_val, y_coord = word_of_int y_val\<rparr>
                | _ \<Rightarrow> None)
      | _ \<Rightarrow> None)"

definition ComputeGridCoord :: "cfloat \<Rightarrow> cfloat \<Rightarrow> CoordPair option" where
  "ComputeGridCoord x y = Compute CENTER_GRID_ID x y CENTER_GRID_OFFSET SIZE_OF_GRIDS"

definition ComputeCellCoord :: "cfloat \<Rightarrow> cfloat \<Rightarrow> CoordPair option" where
  "ComputeCellCoord x y =
     Compute CENTER_GRID_CELL_ID x y CENTER_GRID_CELL_OFFSET SIZE_OF_GRID_CELL"

text \<open>
  The overload \<open>ComputeCellCoord(x, y, x_off, y_off)\<close>: the result carries the two output
  parameters. The offsets are computed in \<open>float\<close>: \<open>float(x_offset)\<close> and \<open>float(x_val)\<close>
  round to binary32, as does each of the three operations on them. The literal \<open>0.5f\<close> is
  converted to the \<open>double\<close> \<open>1 / 2\<close> exactly.
\<close>

definition ComputeCellCoord_off ::
    "cfloat \<Rightarrow> cfloat \<Rightarrow> (CoordPair \<times> cfloat \<times> cfloat) option" where
  "ComputeCellCoord_off x y =
     (case (x, y) of
        (Finite xr, Finite yr) \<Rightarrow>
          let x_offset = round64 (round64 (xr - CENTER_GRID_CELL_OFFSET) / SIZE_OF_GRID_CELL);
              y_offset = round64 (round64 (yr - CENTER_GRID_CELL_OFFSET) / SIZE_OF_GRID_CELL)
          in (case (to_int (round64 (round64 (x_offset + of_int CENTER_GRID_CELL_ID) + 1 / 2)),
                    to_int (round64 (round64 (y_offset + of_int CENTER_GRID_CELL_ID) + 1 / 2))) of
                (Some x_val, Some y_val) \<Rightarrow>
                  let x_off = round32 (round32 (round32 (round32 x_offset - round32 (of_int x_val))
                                + of_int CENTER_GRID_CELL_ID) * SIZE_OF_GRID_CELL);
                      y_off = round32 (round32 (round32 (round32 y_offset - round32 (of_int y_val))
                                + of_int CENTER_GRID_CELL_ID) * SIZE_OF_GRID_CELL)
                  in Some (\<lparr>x_coord = word_of_int x_val, y_coord = word_of_int y_val\<rparr>,
                           Finite x_off, Finite y_off)
              | _ \<Rightarrow> None)
      | _ \<Rightarrow> None)"

text \<open>\<open>NormalizeMapCoord(float &c)\<close>, returning the new value of \<open>c\<close>.\<close>

definition NormalizeMapCoord :: "cfloat \<Rightarrow> cfloat" where
  "NormalizeMapCoord c =
     (if f_gt c (Finite (round32 (MAP_HALFSIZE - 1 / 2)))
      then Finite (round32 (MAP_HALFSIZE - 1 / 2))
      else if f_lt c (f_neg (Finite (round32 (MAP_HALFSIZE - 1 / 2))))
      then f_neg (Finite (round32 (MAP_HALFSIZE - 1 / 2)))
      else c)"

text \<open>
  The four overloads of \<open>IsValidMapCoord\<close>, told apart by a suffix naming the arguments.
  The orientation argument \<open>o\<close> is called \<open>ori\<close>.
\<close>

definition IsValidMapCoord :: "cfloat \<Rightarrow> bool" where
  "IsValidMapCoord c \<longleftrightarrow>
     isfinite c \<and> f_le (fabs c) (Finite (round32 (MAP_HALFSIZE - 1 / 2)))"

definition IsValidMapCoord_xy :: "cfloat \<Rightarrow> cfloat \<Rightarrow> bool" where
  "IsValidMapCoord_xy x y \<longleftrightarrow> IsValidMapCoord x \<and> IsValidMapCoord y"

definition IsValidMapCoord_xyz :: "cfloat \<Rightarrow> cfloat \<Rightarrow> cfloat \<Rightarrow> bool" where
  "IsValidMapCoord_xyz x y z \<longleftrightarrow> IsValidMapCoord_xy x y \<and> IsValidMapCoord z"

definition IsValidMapCoord_xyzo :: "cfloat \<Rightarrow> cfloat \<Rightarrow> cfloat \<Rightarrow> cfloat \<Rightarrow> bool" where
  "IsValidMapCoord_xyzo x y z ori \<longleftrightarrow> IsValidMapCoord_xyz x y z \<and> isfinite ori"

section \<open>Reference definitions\<close>

text \<open>
  The specification's description of the validity test: a coordinate is within the map
  bounds when it is finite and its absolute value is at most \<open>MAP_HALFSIZE - 0.5\<close>.
\<close>

definition within_map_bounds :: "cfloat \<Rightarrow> bool" where
  "within_map_bounds c \<longleftrightarrow>
     (case c of Finite r \<Rightarrow> \<bar>r\<bar> \<le> MAP_HALFSIZE - 1 / 2 | _ \<Rightarrow> False)"



text \<open>
  The \<open>double\<close> value that \<open>Compute\<close> converts to \<open>int\<close>, for one coordinate.
\<close>

definition Compute_val :: "int \<Rightarrow> rat \<Rightarrow> rat \<Rightarrow> rat \<Rightarrow> rat" where
  "Compute_val CENTER_VAL c center_offset sz =
     round64 (round64 (round64 (round64 (c - center_offset) / sz) + of_int CENTER_VAL) + 1 / 2)"

section \<open>Properties of CoordPair\<close>

lemma GridLimit_eq: "GridLimit = 64"
  by (simp add: GridLimit_def MAX_NUMBER_OF_GRIDS_def)

lemma CellLimit_eq: "CellLimit = 512"
  by (simp add: CellLimit_def TOTAL_NUMBER_OF_CELLS_PER_MAP_def MAX_NUMBER_OF_GRIDS_def
      MAX_NUMBER_OF_CELLS_def)

lemma limit_pos: "(a :: uint32) < LIMIT \<Longrightarrow> LIMIT - 1 < LIMIT"
proof -
  assume "a < LIMIT"
  then have "LIMIT \<noteq> 0"
    by (auto simp: word_less_nat_alt)
  then have "unat (LIMIT - 1) = unat LIMIT - 1"
    by (simp add: unat_minus_one)
  moreover from \<open>LIMIT \<noteq> 0\<close> have "unat LIMIT \<noteq> 0"
    by (simp add: unat_eq_0)
  ultimately show ?thesis
    by (simp add: word_less_nat_alt)
qed

lemma zero_below_limit: "(a :: uint32) < LIMIT \<Longrightarrow> 0 < LIMIT"
  by (auto simp: word_less_nat_alt)

lemma sub_below_limit:
  fixes a val LIMIT :: uint32
  assumes "a < LIMIT" and "val < a"
  shows "a - val < LIMIT"
proof -
  from assms(2) have "unat (a - val) = unat a - unat val"
    by (simp add: unat_sub word_less_nat_alt word_le_nat_alt)
  with assms(1) show ?thesis
    by (simp add: word_less_nat_alt)
qed

text \<open>
  Claim C8. On a pair that satisfies \<open>IsCoordValid\<close>, each of \<open>inc_x\<close>, \<open>inc_y\<close>,
  \<open>dec_x\<close>, \<open>dec_y\<close> yields a pair that satisfies \<open>IsCoordValid\<close> again, for every
  \<open>uint32\<close> step \<open>val\<close>. \<open>dec_x\<close> is truncated subtraction: the new component is
  \<open>x - val\<close> when \<open>x > val\<close> and 0 otherwise, so that as a natural number it is the
  truncated difference. \<open>inc_x\<close> stores the 32-bit sum \<open>x + val\<close> (the sum modulo
  \<open>2 ^ 32\<close>) when that sum is below \<open>LIMIT\<close> and \<open>LIMIT - 1\<close> otherwise.
\<close>

theorem C8_inc_dec_preserve_valid:
  assumes "IsCoordValid LIMIT p"
  shows "IsCoordValid LIMIT (inc_x LIMIT p val)
       \<and> IsCoordValid LIMIT (inc_y LIMIT p val)
       \<and> IsCoordValid LIMIT (dec_x p val)
       \<and> IsCoordValid LIMIT (dec_y p val)
       \<and> x_coord (dec_x p val) = (if x_coord p > val then x_coord p - val else 0)
       \<and> unat (x_coord (dec_x p val)) = unat (x_coord p) - unat val
       \<and> y_coord (dec_x p val) = y_coord p
       \<and> x_coord (inc_x LIMIT p val) =
           (if x_coord p + val < LIMIT then x_coord p + val else LIMIT - 1)
       \<and> unat (x_coord p + val) = (unat (x_coord p) + unat val) mod 2 ^ 32
       \<and> y_coord (inc_x LIMIT p val) = y_coord p"
proof -
  from assms have x: "x_coord p < LIMIT" and y: "y_coord p < LIMIT"
    by (simp_all add: IsCoordValid_def)
  have top: "LIMIT - 1 < LIMIT"
    using x by (rule limit_pos)
  have bot: "0 < LIMIT"
    using x by (rule zero_below_limit)
  have ix: "IsCoordValid LIMIT (inc_x LIMIT p val)"
    using y top by (simp add: IsCoordValid_def inc_x_def)
  have iy: "IsCoordValid LIMIT (inc_y LIMIT p val)"
    using x top by (simp add: IsCoordValid_def inc_y_def)
  have dx: "IsCoordValid LIMIT (dec_x p val)"
    using x y bot sub_below_limit [of "x_coord p" LIMIT val]
    by (simp add: IsCoordValid_def dec_x_def)
  have dy: "IsCoordValid LIMIT (dec_y p val)"
    using x y bot sub_below_limit [of "y_coord p" LIMIT val]
    by (simp add: IsCoordValid_def dec_y_def)
  have trunc: "unat (x_coord (dec_x p val)) = unat (x_coord p) - unat val"
  proof (cases "x_coord p > val")
    case True
    then show ?thesis
      by (simp add: dec_x_def unat_sub word_less_nat_alt word_le_nat_alt)
  next
    case False
    then show ?thesis
      by (simp add: dec_x_def word_less_nat_alt)
  qed
  have wrap: "unat (x_coord p + val) = (unat (x_coord p) + unat val) mod 2 ^ 32"
    by (simp add: unat_word_ariths)
  show ?thesis
    using ix iy dx dy trunc wrap by (simp add: dec_x_def inc_x_def)
qed

theorem C8_inc_dec_preserve_valid_witness:
  "IsCoordValid 64 \<lparr>x_coord = 60, y_coord = 3\<rparr>
   \<and> inc_x 64 \<lparr>x_coord = 60, y_coord = 3\<rparr> 10 = \<lparr>x_coord = 63, y_coord = 3\<rparr>
   \<and> inc_x 64 \<lparr>x_coord = 60, y_coord = 3\<rparr> 4294967295 = \<lparr>x_coord = 59, y_coord = 3\<rparr>
   \<and> dec_x \<lparr>x_coord = 60, y_coord = 3\<rparr> 61 = \<lparr>x_coord = 0, y_coord = 3\<rparr>
   \<and> IsCoordValid 64 (inc_x 64 \<lparr>x_coord = 60, y_coord = 3\<rparr> 10)
   \<and> IsCoordValid 64 (dec_x \<lparr>x_coord = 60, y_coord = 3\<rparr> 61)"
proof -
  have v: "IsCoordValid 64 \<lparr>x_coord = 60, y_coord = 3\<rparr>"
    by (simp add: IsCoordValid_def)
  have a: "inc_x 64 \<lparr>x_coord = 60, y_coord = 3\<rparr> 10 = \<lparr>x_coord = 63, y_coord = 3\<rparr>"
    by (simp add: inc_x_def)
  have b: "inc_x 64 \<lparr>x_coord = 60, y_coord = 3\<rparr> 4294967295 = \<lparr>x_coord = 59, y_coord = 3\<rparr>"
    by (simp add: inc_x_def)
  have c: "dec_x \<lparr>x_coord = 60, y_coord = 3\<rparr> 61 = \<lparr>x_coord = 0, y_coord = 3\<rparr>"
    by (simp add: dec_x_def)
  from C8_inc_dec_preserve_valid [OF v, of 10] C8_inc_dec_preserve_valid [OF v, of 61]
  show ?thesis
    using v a b c by simp
qed

lemma GetId_unat:
  assumes L: "unat LIMIT \<le> 65536" and v: "IsCoordValid LIMIT p"
  shows "unat (GetId LIMIT p) = unat (y_coord p) * unat LIMIT + unat (x_coord p)"
    and "unat (GetId LIMIT p) < unat LIMIT * unat LIMIT"
proof -
  define a b l where "a = unat (x_coord p)" and "b = unat (y_coord p)" and "l = unat LIMIT"
  from v have ab: "a < l" "b < l"
    by (simp_all add: IsCoordValid_def word_less_nat_alt a_def b_def l_def)
  from ab(2) have "(b + 1) * l \<le> l * l"
    by (intro mult_le_mono1) simp
  with ab(1) have lt: "b * l + a < l * l"
    by simp
  from L have "l * l \<le> 65536 * 65536"
    unfolding l_def by (intro mult_le_mono) simp_all
  with lt have small: "b * l + a < 2 ^ 32"
    by simp
  then have "b * l < 2 ^ 32"
    by simp
  then have "unat (y_coord p * LIMIT + x_coord p) = b * l + a"
    using small by (simp add: unat_word_ariths a_def b_def l_def)
  then show "unat (GetId LIMIT p) = unat (y_coord p) * unat LIMIT + unat (x_coord p)"
    by (simp add: GetId_def a_def b_def l_def)
  with lt show "unat (GetId LIMIT p) < unat LIMIT * unat LIMIT"
    by (simp add: a_def b_def l_def)
qed

lemma GetId_injective_small_limit:
  assumes L: "unat LIMIT \<le> 65536"
    and p: "IsCoordValid LIMIT p" and q: "IsCoordValid LIMIT q"
  shows "GetId LIMIT p = GetId LIMIT q \<longleftrightarrow> p = q"
proof -
  have "p = q" if eq: "GetId LIMIT p = GetId LIMIT q"
  proof -
    from p q have xp: "unat (x_coord p) < unat LIMIT" and xq: "unat (x_coord q) < unat LIMIT"
      by (simp_all add: IsCoordValid_def word_less_nat_alt)
    from eq have e: "unat (y_coord p) * unat LIMIT + unat (x_coord p)
        = unat (y_coord q) * unat LIMIT + unat (x_coord q)"
      using GetId_unat(1) [OF L p] GetId_unat(1) [OF L q] by simp
    have "(unat (y_coord p) * unat LIMIT + unat (x_coord p)) mod unat LIMIT = unat (x_coord p)"
      using xp by simp
    moreover have "(unat (y_coord q) * unat LIMIT + unat (x_coord q)) mod unat LIMIT
        = unat (x_coord q)"
      using xq by simp
    ultimately have x: "unat (x_coord p) = unat (x_coord q)"
      using e by simp
    have "(unat (y_coord p) * unat LIMIT + unat (x_coord p)) div unat LIMIT = unat (y_coord p)"
      using xp by simp
    moreover have "(unat (y_coord q) * unat LIMIT + unat (x_coord q)) div unat LIMIT
        = unat (y_coord q)"
      using xq by simp
    ultimately have y: "unat (y_coord p) = unat (y_coord q)"
      using e by simp
    from x y show "p = q"
      by (cases p, cases q) (simp add: word_unat_eq_iff)
  qed
  then show ?thesis
    by auto
qed

text \<open>
  Claim C10. For \<open>GridCoord\<close> (\<open>LIMIT = 64\<close>) and \<open>CellCoord\<close> (\<open>LIMIT = 512\<close>), the
  two instantiations of \<open>CoordPair\<close>, and two pairs that satisfy \<open>IsCoordValid\<close>:
  \<open>GetId\<close> is below \<open>LIMIT * LIMIT\<close>, and the two identifiers are equal exactly when the
  pairs are equal.
\<close>

theorem C10_GetId_injective:
  assumes L: "LIMIT = GridLimit \<or> LIMIT = CellLimit"
    and p: "IsCoordValid LIMIT p" and q: "IsCoordValid LIMIT q"
  shows "unat (GetId LIMIT p) < unat LIMIT * unat LIMIT
       \<and> (GetId LIMIT p = GetId LIMIT q \<longleftrightarrow> p = q)"
proof -
  from L have s: "unat LIMIT \<le> 65536"
    by (auto simp: GridLimit_eq CellLimit_eq)
  from GetId_unat(2) [OF s p] GetId_injective_small_limit [OF s p q] show ?thesis
    by simp
qed

text \<open>
  The instance for \<open>GridCoord\<close> at the pairs (3, 5) and (5, 3), and for \<open>CellCoord\<close> at
  the largest pair (511, 511), whose identifier is \<open>512 * 512 - 1\<close>.
\<close>

theorem C10_GetId_injective_witness:
  "IsCoordValid GridLimit \<lparr>x_coord = 3, y_coord = 5\<rparr>
   \<and> IsCoordValid GridLimit \<lparr>x_coord = 5, y_coord = 3\<rparr>
   \<and> GetId GridLimit \<lparr>x_coord = 3, y_coord = 5\<rparr> = 323
   \<and> GetId GridLimit \<lparr>x_coord = 5, y_coord = 3\<rparr> = 197
   \<and> unat (GetId GridLimit \<lparr>x_coord = 3, y_coord = 5\<rparr>) < unat GridLimit * unat GridLimit
   \<and> IsCoordValid CellLimit \<lparr>x_coord = 511, y_coord = 511\<rparr>
   \<and> GetId CellLimit \<lparr>x_coord = 511, y_coord = 511\<rparr> = 262143
   \<and> unat (GetId CellLimit \<lparr>x_coord = 511, y_coord = 511\<rparr>) < unat CellLimit * unat CellLimit
   \<and> (GetId GridLimit \<lparr>x_coord = 3, y_coord = 5\<rparr> = GetId GridLimit \<lparr>x_coord = 5, y_coord = 3\<rparr>
        \<longleftrightarrow> \<lparr>x_coord = 3, y_coord = 5\<rparr> = \<lparr>x_coord = 5, y_coord = (3 :: uint32)\<rparr>)"
proof -
  have p: "IsCoordValid GridLimit \<lparr>x_coord = 3, y_coord = 5\<rparr>"
    and q: "IsCoordValid GridLimit \<lparr>x_coord = 5, y_coord = 3\<rparr>"
    by (simp_all add: IsCoordValid_def GridLimit_eq)
  have r: "IsCoordValid CellLimit \<lparr>x_coord = 511, y_coord = 511\<rparr>"
    by (simp add: IsCoordValid_def CellLimit_eq)
  have i: "GetId GridLimit \<lparr>x_coord = 3, y_coord = 5\<rparr> = 323"
    "GetId GridLimit \<lparr>x_coord = 5, y_coord = 3\<rparr> = 197"
    "GetId CellLimit \<lparr>x_coord = 511, y_coord = 511\<rparr> = 262143"
    by (simp_all add: GetId_def GridLimit_eq CellLimit_eq)
  have g: "GridLimit = GridLimit \<or> GridLimit = CellLimit"
    and c: "CellLimit = GridLimit \<or> CellLimit = CellLimit"
    by simp_all
  from C10_GetId_injective [OF g p q] C10_GetId_injective [OF c r r] p q r i show ?thesis
    by simp
qed


section \<open>Properties of rounding\<close>

lemma expo_up_bounds:
  "1 \<le> r \<Longrightarrow> 0 \<le> expo_up r \<and> 2 powi expo_up r \<le> r \<and> r < 2 powi (expo_up r + 1)"
proof (induction r rule: expo_up.induct)
  case (1 r)
  show ?case
  proof (cases "r < 2")
    case True
    with "1.prems" show ?thesis
      by (simp add: expo_up.simps [of r])
  next
    case False
    then have "1 \<le> r / 2" by simp
    with False "1.IH" have ih: "0 \<le> expo_up (r / 2)" "2 powi expo_up (r / 2) \<le> r / 2"
      "r / 2 < 2 powi (expo_up (r / 2) + 1)"
      by simp_all
    have e: "expo_up r = expo_up (r / 2) + 1"
      using False by (simp add: expo_up.simps [of r])
    have s: "(2::rat) powi (k + 1) = 2 * 2 powi k" for k :: int
      by (simp add: power_int_add)
    from ih show ?thesis
      unfolding e s by simp
  qed
qed

lemma expo_down_bounds:
  "0 < r \<Longrightarrow> r < 1 \<Longrightarrow> 2 powi expo_down r \<le> r \<and> r < 2 powi (expo_down r + 1)"
proof (induction r rule: expo_down.induct)
  case (1 r)
  have e: "expo_down r = expo_down (2 * r) - 1"
    using "1.prems" by (simp add: expo_down.simps [of r])
  have s: "(2::rat) powi (k - 1) = 2 powi k / 2" for k :: int
    by (simp add: power_int_diff)
  show ?case
  proof (cases "2 * r < 1")
    case True
    with "1.prems" "1.IH"
    have "2 powi expo_down (2 * r) \<le> 2 * r \<and> 2 * r < 2 powi (expo_down (2 * r) + 1)"
      by simp
    moreover have "expo_down r + 1 = expo_down (2 * r)"
      by (simp add: e)
    moreover have "(2::rat) powi (expo_down (2 * r) + 1) = 2 * 2 powi expo_down (2 * r)"
      by (simp add: power_int_add)
    ultimately show ?thesis
      unfolding e s by simp
  next
    case False
    then have "expo_down (2 * r) = 0"
      by (simp add: expo_down.simps [of "2 * r"])
    with False "1.prems" show ?thesis
      unfolding e by simp
  qed
qed

lemma expo_bounds:
  assumes "r \<noteq> 0"
  shows "2 powi expo r \<le> \<bar>r\<bar> \<and> \<bar>r\<bar> < 2 powi (expo r + 1)"
proof (cases "1 \<le> \<bar>r\<bar>")
  case True
  then show ?thesis
    using expo_up_bounds [of "\<bar>r\<bar>"] by (simp add: expo_def)
next
  case False
  with assms have "0 < \<bar>r\<bar>" "\<bar>r\<bar> < 1" by simp_all
  then show ?thesis
    using expo_down_bounds [of "\<bar>r\<bar>"] False by (simp add: expo_def)
qed

lemma round_even_err: "\<bar>of_int (round_even q) - q\<bar> \<le> 1 / 2"
proof -
  have "of_int \<lfloor>q\<rfloor> \<le> q" "q < of_int \<lfloor>q\<rfloor> + 1"
    by linarith+
  then show ?thesis
    by (auto simp: round_even_def Let_def abs_le_iff)
qed

lemma rnd_err: "\<bar>rnd p r - r\<bar> \<le> \<bar>r\<bar> / 2 ^ p"
proof (cases "r = 0")
  case True
  then show ?thesis by (simp add: rnd_def)
next
  case False
  define u :: rat where "u = 2 powi (expo r - int p + 1)"
  have upos: "0 < u" by (simp add: u_def)
  have "rnd p r = of_int (round_even (r / u)) * u"
    using False unfolding rnd_def Let_def u_def by simp
  then have "rnd p r - r = (of_int (round_even (r / u)) - r / u) * u"
    using upos by (simp add: field_simps)
  then have "\<bar>rnd p r - r\<bar> = \<bar>of_int (round_even (r / u)) - r / u\<bar> * u"
    using upos by (simp add: abs_mult)
  also have "\<dots> \<le> 1 / 2 * u"
    using upos round_even_err [of "r / u"] by (intro mult_right_mono) simp_all
  also have "1 / 2 * u = 2 powi expo r / 2 ^ p"
    by (simp add: u_def power_int_add power_int_diff)
  also have "\<dots> \<le> \<bar>r\<bar> / 2 ^ p"
    using expo_bounds [OF False] by (simp add: divide_right_mono)
  finally show ?thesis .
qed

lemma pow2_less_imp_less:
  assumes "(2::rat) powi a < 2 powi b"
  shows "a < b"
proof (rule ccontr)
  assume "\<not> a < b"
  then have "b \<le> a" by simp
  then have "(2::rat) powi b \<le> 2 powi a"
    by (intro power_int_increasing) simp_all
  with assms show False by simp
qed

lemma expo_ge:
  assumes "2 powi k \<le> \<bar>r\<bar>"
  shows "k \<le> expo r"
proof -
  have "(0::rat) < 2 powi k" by simp
  with assms have "0 < \<bar>r\<bar>" by linarith
  then have "r \<noteq> 0" by simp
  then have "\<bar>r\<bar> < 2 powi (expo r + 1)"
    using expo_bounds by blast
  with assms have "(2::rat) powi k < 2 powi (expo r + 1)"
    by simp
  then have "k < expo r + 1"
    by (rule pow2_less_imp_less)
  then show ?thesis by simp
qed

lemma round_even_of_int: "round_even (of_int m) = m"
  by (simp add: round_even_def)

lemma round_even_ge_floor: "\<lfloor>y\<rfloor> \<le> round_even y"
  by (simp add: round_even_def Let_def)

text \<open>A value \<open>k * 2 ^ e\<close> with \<open>\<bar>k\<bar> < 2 ^ p\<close> lies on the grid of every binade
  whose exponent does not exceed its own.\<close>

lemma rep_on_grid:
  assumes k: "\<bar>k\<bar> < 2 ^ p" and le: "(2::rat) powi E \<le> \<bar>of_int k * 2 powi e\<bar>"
  shows "\<exists>m. (of_int k * 2 powi e :: rat) = of_int m * 2 powi (E - int p + 1)"
proof -
  have "\<bar>of_int k * (2::rat) powi e\<bar> = of_int \<bar>k\<bar> * 2 powi e"
    by (simp add: abs_mult)
  also have "\<dots> < 2 ^ p * 2 powi e"
  proof (intro mult_strict_right_mono)
    have "(of_int \<bar>k\<bar> :: rat) < of_int (2 ^ p)"
      using k by (simp only: of_int_less_iff)
    then show "(of_int \<bar>k\<bar> :: rat) < 2 ^ p" by simp
  qed simp
  also have "\<dots> = 2 powi (int p + e)"
    by (simp add: power_int_add)
  finally have "(2::rat) powi E < 2 powi (int p + e)"
    using le by simp
  then have "E < int p + e"
    by (rule pow2_less_imp_less)
  then have n: "0 \<le> e - (E - int p + 1)"
    by simp
  define n where "n = nat (e - (E - int p + 1))"
  have "e = (E - int p + 1) + int n"
    using n by (simp add: n_def)
  then have "(2::rat) powi e = 2 powi (E - int p + 1) * 2 ^ n"
    by (simp add: power_int_add)
  then have "(of_int k * 2 powi e :: rat) = of_int (k * 2 ^ n) * 2 powi (E - int p + 1)"
    by simp
  then show ?thesis ..
qed

lemma rnd_exact:
  assumes k: "\<bar>k\<bar> < 2 ^ p"
  shows "rnd p (of_int k * 2 powi e) = of_int k * 2 powi e"
proof (cases "of_int k * (2::rat) powi e = 0")
  case True
  then show ?thesis by (simp add: rnd_def)
next
  case False
  define r :: rat where "r = of_int k * 2 powi e"
  define u :: rat where "u = 2 powi (expo r - int p + 1)"
  have upos: "0 < u" by (simp add: u_def)
  from False have "r \<noteq> 0" by (simp add: r_def)
  then have "2 powi expo r \<le> \<bar>r\<bar>"
    using expo_bounds by blast
  with k obtain m where m: "r = of_int m * u"
    unfolding r_def u_def using rep_on_grid by blast
  then have "r / u = of_int m"
    using upos by simp
  then have "round_even (r / u) = m"
    by (simp add: round_even_of_int)
  with \<open>r \<noteq> 0\<close> have "rnd p r = of_int m * u"
    unfolding rnd_def Let_def u_def by simp
  with m show ?thesis by (simp add: r_def)
qed

lemma rnd_ge:
  assumes k: "\<bar>k\<bar> < 2 ^ p" and p: "0 < p" and le: "of_int k * 2 powi e \<le> r"
  shows "of_int k * 2 powi e \<le> rnd p r"
proof (cases "r = 0")
  case True
  with le show ?thesis by (simp add: rnd_def)
next
  case False
  define f :: rat where "f = of_int k * 2 powi e"
  define u :: rat where "u = 2 powi (expo r - int p + 1)"
  have upos: "0 < u" by (simp add: u_def)
  have R: "rnd p r = of_int (round_even (r / u)) * u"
    using False unfolding rnd_def Let_def u_def by simp
  have E: "2 powi expo r \<le> \<bar>r\<bar>"
    using expo_bounds [OF False] by blast
  show ?thesis
  proof (cases "2 powi expo r \<le> \<bar>f\<bar>")
    case True
    with k obtain m where m: "f = of_int m * u"
      unfolding f_def u_def using rep_on_grid by blast
    from le have "f / u \<le> r / u"
      using upos by (simp add: f_def divide_right_mono)
    with m upos have "of_int m \<le> r / u"
      by simp
    then have "m \<le> \<lfloor>r / u\<rfloor>"
      by (simp add: le_floor_iff)
    also have "\<dots> \<le> round_even (r / u)"
      by (rule round_even_ge_floor)
    finally have "(of_int m :: rat) \<le> of_int (round_even (r / u))"
      by (simp only: of_int_le_iff)
    then have "of_int m * u \<le> of_int (round_even (r / u)) * u"
      using upos by (intro mult_right_mono) simp_all
    with m R show ?thesis
      by (simp add: f_def)
  next
    case small: False
    have "0 < r"
    proof (rule ccontr)
      assume "\<not> 0 < r"
      with False have "r < 0" by simp
      with le have "\<bar>r\<bar> \<le> \<bar>f\<bar>"
        by (simp add: f_def)
      with E small show False by simp
    qed
    have "(2::rat) powi expo r = 2 ^ (p - 1) * u"
    proof -
      have "expo r = int (p - 1) + (expo r - int p + 1)"
        using p by simp
      then have "(2::rat) powi expo r = 2 powi int (p - 1) * 2 powi (expo r - int p + 1)"
        by (metis power_int_add zero_neq_numeral)
      then show ?thesis by (simp add: u_def)
    qed
    with E \<open>0 < r\<close> have "2 ^ (p - 1) * u \<le> r"
      by simp
    then have "(2 ^ (p - 1) :: rat) \<le> r / u"
      using upos by (simp add: pos_le_divide_eq)
    then have "(of_int (2 ^ (p - 1)) :: rat) \<le> r / u"
      by simp
    then have "2 ^ (p - 1) \<le> \<lfloor>r / u\<rfloor>"
      by (simp only: le_floor_iff)
    also have "\<dots> \<le> round_even (r / u)"
      by (rule round_even_ge_floor)
    finally have "(of_int (2 ^ (p - 1)) :: rat) \<le> of_int (round_even (r / u))"
      by (simp only: of_int_le_iff)
    then have "2 ^ (p - 1) * u \<le> of_int (round_even (r / u)) * u"
      using upos by (intro mult_right_mono) simp_all
    with R \<open>(2::rat) powi expo r = 2 ^ (p - 1) * u\<close> have "2 powi expo r \<le> rnd p r"
      by simp
    moreover from small have "f < 2 powi expo r"
      by simp
    ultimately show ?thesis
      by (simp add: f_def)
  qed
qed

lemma Compute_Finite:
  "sz \<noteq> 0 \<Longrightarrow> Compute CENTER_VAL (Finite xr) (Finite yr) center_offset sz =
     (case (to_int (Compute_val CENTER_VAL xr center_offset sz),
            to_int (Compute_val CENTER_VAL yr center_offset sz)) of
        (Some x_val, Some y_val) \<Rightarrow>
          Some \<lparr>x_coord = word_of_int x_val, y_coord = word_of_int y_val\<rparr>
      | _ \<Rightarrow> None)"
  by (simp add: Compute_def Compute_val_def Let_def)

lemma round64_err: "\<bar>round64 r - r\<bar> \<le> \<bar>r\<bar> / 2 ^ 53"
  unfolding round64_def by (rule rnd_err)

lemma round64_err_bound:
  assumes "\<bar>r\<bar> \<le> k * M" and "0 \<le> M"
  shows "\<bar>round64 r - r\<bar> \<le> k * (M / 2 ^ 53)"
proof -
  have "\<bar>round64 r - r\<bar> \<le> \<bar>r\<bar> / 2 ^ 53"
    by (rule round64_err)
  also have "\<dots> \<le> (k * M) / 2 ^ 53"
    using assms(1) by (simp add: divide_right_mono)
  finally show ?thesis by simp
qed

lemma Compute_val_err:
  assumes s: "0 < s" and M: "1 \<le> M"
    and x: "\<bar>x - c\<bar> \<le> M * s" and C: "\<bar>of_int C\<bar> \<le> M"
  shows "\<bar>Compute_val C x c s - ((x - c) / s + of_int C + 1 / 2)\<bar> \<le> 16 * M / 2 ^ 53"
proof -
  define E where "E = M / 2 ^ 53"
  define d where "d = round64 (x - c)"
  define q where "q = round64 (d / s)"
  define a where "a = round64 (q + of_int C)"
  define v where "v = round64 (a + 1 / 2)"
  define q0 where "q0 = (x - c) / s"
  have E: "0 \<le> E" "E \<le> M / 8"
    using M by (simp_all add: E_def)
  have q0: "\<bar>q0\<bar> \<le> M"
    using x s by (simp add: q0_def abs_divide field_simps)
  have "\<bar>d - (x - c)\<bar> \<le> \<bar>x - c\<bar> / 2 ^ 53"
    unfolding d_def by (rule round64_err)
  also have "\<dots> \<le> (M * s) / 2 ^ 53"
    using x by (simp add: divide_right_mono)
  finally have d: "\<bar>d - (x - c)\<bar> \<le> E * s"
    by (simp add: E_def)
  have "\<bar>d / s - q0\<bar> = \<bar>d - (x - c)\<bar> / s"
    using s by (simp add: q0_def diff_divide_distrib [symmetric] abs_divide)
  also have "\<dots> \<le> E"
    using d s by (simp add: field_simps)
  finally have ds: "\<bar>d / s - q0\<bar> \<le> E" .
  with q0 E have "\<bar>d / s\<bar> \<le> 2 * M" by linarith
  with M have "\<bar>q - d / s\<bar> \<le> 2 * E"
    unfolding q_def E_def by (intro round64_err_bound) simp_all
  with ds have qe: "\<bar>q - q0\<bar> \<le> 3 * E" by linarith
  with q0 E C have "\<bar>q + of_int C\<bar> \<le> 3 * M" by linarith
  with M have ae: "\<bar>a - (q + of_int C)\<bar> \<le> 3 * E"
    unfolding a_def E_def by (intro round64_err_bound) simp_all
  with qe q0 E C M have "\<bar>a + 1 / 2\<bar> \<le> 5 * M" by linarith
  with M have "\<bar>v - (a + 1 / 2)\<bar> \<le> 5 * E"
    unfolding v_def E_def by (intro round64_err_bound) simp_all
  with ae qe have "\<bar>v - (q0 + of_int C + 1 / 2)\<bar> \<le> 11 * E" by linarith
  with E have "\<bar>v - (q0 + of_int C + 1 / 2)\<bar> \<le> 16 * E" by linarith
  then show ?thesis
    by (simp add: v_def a_def q_def d_def q0_def E_def Compute_val_def)
qed

text \<open>
  Rounding is monotone, and so is the value that \<open>Compute\<close> converts, as a function of
  the coordinate.
\<close>

lemma round_even_mono:
  assumes "a \<le> b"
  shows "round_even a \<le> round_even b"
proof (cases "\<lfloor>a\<rfloor> = \<lfloor>b\<rfloor>")
  case True
  from assms have "a - of_int \<lfloor>a\<rfloor> \<le> b - of_int \<lfloor>a\<rfloor>"
    by simp
  then show ?thesis
    unfolding round_even_def Let_def True [symmetric] by auto
next
  case False
  from assms have "\<lfloor>a\<rfloor> \<le> \<lfloor>b\<rfloor>"
    by (rule floor_mono)
  with False have "\<lfloor>a\<rfloor> + 1 \<le> \<lfloor>b\<rfloor>"
    by simp
  moreover have "round_even a \<le> \<lfloor>a\<rfloor> + 1"
    by (simp add: round_even_def Let_def)
  moreover have "\<lfloor>b\<rfloor> \<le> round_even b"
    by (rule round_even_ge_floor)
  ultimately show ?thesis
    by linarith
qed

lemma expo_mono:
  assumes "r \<noteq> 0" and "\<bar>r\<bar> \<le> \<bar>s\<bar>"
  shows "expo r \<le> expo s"
proof -
  have "2 powi expo r \<le> \<bar>r\<bar>"
    using expo_bounds [OF assms(1)] by blast
  with assms(2) have "2 powi expo r \<le> \<bar>s\<bar>"
    by simp
  then show ?thesis
    by (rule expo_ge)
qed

lemma expo_le:
  assumes "r \<noteq> 0" and "\<bar>r\<bar> < 2 powi (k + 1)"
  shows "expo r \<le> k"
proof -
  have "2 powi expo r \<le> \<bar>r\<bar>"
    using expo_bounds [OF assms(1)] by blast
  with assms(2) have "(2::rat) powi expo r < 2 powi (k + 1)"
    by simp
  then have "expo r < k + 1"
    by (rule pow2_less_imp_less)
  then show ?thesis by simp
qed

lemma ulp_scale:
  assumes "0 < p"
  shows "(2::rat) powi E = 2 ^ (p - 1) * 2 powi (E - int p + 1)"
    and "(2::rat) powi (E + 1) = 2 ^ p * 2 powi (E - int p + 1)"
proof -
  have "E = int (p - 1) + (E - int p + 1)"
    using assms by simp
  then have "(2::rat) powi E = 2 powi int (p - 1) * 2 powi (E - int p + 1)"
    by (metis power_int_add zero_neq_numeral)
  then show "(2::rat) powi E = 2 ^ (p - 1) * 2 powi (E - int p + 1)"
    by simp
  have "E + 1 = int p + (E - int p + 1)"
    by simp
  then have "(2::rat) powi (E + 1) = 2 powi int p * 2 powi (E - int p + 1)"
    by (metis power_int_add zero_neq_numeral)
  then show "(2::rat) powi (E + 1) = 2 ^ p * 2 powi (E - int p + 1)"
    by simp
qed

lemma rnd_unfold:
  assumes "r \<noteq> 0"
  shows "rnd p r = of_int (round_even (r / 2 powi (expo r - int p + 1))) * 2 powi (expo r - int p + 1)"
  using assms unfolding rnd_def Let_def by simp

lemma rnd_pos_bounds:
  assumes p: "0 < p" and r: "0 < r"
  shows "2 powi expo r \<le> rnd p r" and "rnd p r \<le> 2 powi (expo r + 1)"
proof -
  define u :: rat where "u = 2 powi (expo r - int p + 1)"
  have upos: "0 < u" by (simp add: u_def)
  from r have nz: "r \<noteq> 0" by simp
  have E: "2 powi expo r \<le> r" "r < 2 powi (expo r + 1)"
    using expo_bounds [OF nz] r by simp_all
  have s: "(2::rat) powi expo r = 2 ^ (p - 1) * u" "(2::rat) powi (expo r + 1) = 2 ^ p * u"
    unfolding u_def by (rule ulp_scale [OF p])+
  from E s upos have "(2 ^ (p - 1) :: rat) \<le> r / u" "r / u \<le> 2 ^ p"
    by (simp_all add: pos_le_divide_eq pos_divide_le_eq)
  then have "(of_int (2 ^ (p - 1)) :: rat) \<le> r / u" "r / u \<le> of_int (2 ^ p)"
    by simp_all
  then have "round_even (of_int (2 ^ (p - 1))) \<le> round_even (r / u)"
    "round_even (r / u) \<le> round_even (of_int (2 ^ p))"
    by (simp_all only: round_even_mono)
  then have "(of_int (2 ^ (p - 1)) :: rat) \<le> of_int (round_even (r / u))"
    "(of_int (round_even (r / u)) :: rat) \<le> of_int (2 ^ p)"
    by (simp_all only: round_even_of_int of_int_le_iff)
  then have "2 ^ (p - 1) * u \<le> of_int (round_even (r / u)) * u"
    "of_int (round_even (r / u)) * u \<le> 2 ^ p * u"
    using upos by (simp_all add: mult_right_mono)
  then show "2 powi expo r \<le> rnd p r" and "rnd p r \<le> 2 powi (expo r + 1)"
    unfolding rnd_unfold [OF nz] s u_def [symmetric] by simp_all
qed

lemma rnd_neg_bounds:
  assumes p: "0 < p" and r: "r < 0"
  shows "rnd p r \<le> - (2 powi expo r)" and "- (2 powi (expo r + 1)) \<le> rnd p r"
proof -
  define u :: rat where "u = 2 powi (expo r - int p + 1)"
  have upos: "0 < u" by (simp add: u_def)
  from r have nz: "r \<noteq> 0" by simp
  have E: "r \<le> - (2 powi expo r)" "- (2 powi (expo r + 1)) < r"
    using expo_bounds [OF nz] r by simp_all
  have s: "(2::rat) powi expo r = 2 ^ (p - 1) * u" "(2::rat) powi (expo r + 1) = 2 ^ p * u"
    unfolding u_def by (rule ulp_scale [OF p])+
  from E s upos have "r / u \<le> - (2 ^ (p - 1))" "- (2 ^ p) \<le> r / u"
    by (simp_all add: pos_le_divide_eq pos_divide_le_eq)
  then have "r / u \<le> of_int (- (2 ^ (p - 1)))" "(of_int (- (2 ^ p)) :: rat) \<le> r / u"
    by simp_all
  then have "round_even (r / u) \<le> round_even (of_int (- (2 ^ (p - 1))))"
    "round_even (of_int (- (2 ^ p))) \<le> round_even (r / u)"
    by (simp_all only: round_even_mono)
  then have m: "(of_int (round_even (r / u)) :: rat) \<le> of_int (- (2 ^ (p - 1)))"
    "(of_int (- (2 ^ p)) :: rat) \<le> of_int (round_even (r / u))"
    by (simp_all only: round_even_of_int of_int_le_iff)
  have "of_int (round_even (r / u)) * u \<le> of_int (- (2 ^ (p - 1))) * u"
    using m(1) upos by (intro mult_right_mono) simp_all
  moreover have "of_int (- (2 ^ p)) * u \<le> of_int (round_even (r / u)) * u"
    using m(2) upos by (intro mult_right_mono) simp_all
  ultimately have "of_int (round_even (r / u)) * u \<le> - (2 ^ (p - 1) * u)"
    "- (2 ^ p * u) \<le> of_int (round_even (r / u)) * u"
    by simp_all
  then show "rnd p r \<le> - (2 powi expo r)" and "- (2 powi (expo r + 1)) \<le> rnd p r"
    unfolding rnd_unfold [OF nz] s u_def [symmetric] by simp_all
qed

lemma rnd_same_binade:
  assumes "r \<noteq> 0" and "s \<noteq> 0" and "expo r = expo s" and "r \<le> s"
  shows "rnd p r \<le> rnd p s"
proof -
  define u :: rat where "u = 2 powi (expo s - int p + 1)"
  have upos: "0 < u" by (simp add: u_def)
  from assms(4) have "r / u \<le> s / u"
    using upos by (simp add: divide_right_mono)
  then have "round_even (r / u) \<le> round_even (s / u)"
    by (rule round_even_mono)
  then have "(of_int (round_even (r / u)) :: rat) \<le> of_int (round_even (s / u))"
    by (simp only: of_int_le_iff)
  then have "of_int (round_even (r / u)) * u \<le> of_int (round_even (s / u)) * u"
    using upos by (simp add: mult_right_mono)
  then show ?thesis
    unfolding rnd_unfold [OF assms(1)] rnd_unfold [OF assms(2)] assms(3) u_def [symmetric] .
qed

lemma rnd_mono:
  assumes p: "0 < p" and le: "r \<le> s"
  shows "rnd p r \<le> rnd p s"
proof -
  have zero: "rnd p 0 = 0"
    by (simp add: rnd_def)
  consider (z) "r \<le> 0" "0 \<le> s" | (pos) "0 < r" | (neg) "s < 0"
    by linarith
  then show ?thesis
  proof cases
    case z
    have "rnd p r \<le> 0"
    proof (cases "r = 0")
      case True
      then show ?thesis by (simp add: zero)
    next
      case False
      with z have "r < 0" by simp
      have "(0::rat) < 2 powi expo r" by simp
      with rnd_neg_bounds(1) [OF p \<open>r < 0\<close>] show ?thesis
        by linarith
    qed
    moreover have "0 \<le> rnd p s"
    proof (cases "s = 0")
      case True
      then show ?thesis by (simp add: zero)
    next
      case False
      with z have "0 < s" by simp
      have "(0::rat) \<le> 2 powi expo s" by simp
      with rnd_pos_bounds(1) [OF p \<open>0 < s\<close>] show ?thesis
        by linarith
    qed
    ultimately show ?thesis by simp
  next
    case pos
    with le have s: "0 < s" by simp
    from pos s le have "expo r \<le> expo s"
      by (intro expo_mono) simp_all
    then consider "expo r = expo s" | "expo r + 1 \<le> expo s"
      by linarith
    then show ?thesis
    proof cases
      case 1
      with pos s le show ?thesis
        by (intro rnd_same_binade) simp_all
    next
      case 2
      then have "(2::rat) powi (expo r + 1) \<le> 2 powi expo s"
        by (intro power_int_increasing) simp_all
      with rnd_pos_bounds(2) [OF p pos] rnd_pos_bounds(1) [OF p s] show ?thesis
        by linarith
    qed
  next
    case neg
    with le have r: "r < 0" by simp
    from neg r le have "expo s \<le> expo r"
      by (intro expo_mono) simp_all
    then consider "expo r = expo s" | "expo s + 1 \<le> expo r"
      by linarith
    then show ?thesis
    proof cases
      case 1
      with neg r le show ?thesis
        by (intro rnd_same_binade) simp_all
    next
      case 2
      then have "(2::rat) powi (expo s + 1) \<le> 2 powi expo r"
        by (intro power_int_increasing) simp_all
      with rnd_neg_bounds(1) [OF p r] rnd_neg_bounds(2) [OF p neg] show ?thesis
        by linarith
    qed
  qed
qed

lemma round64_mono: "r \<le> s \<Longrightarrow> round64 r \<le> round64 s"
  unfolding round64_def by (rule rnd_mono) simp_all

lemma Compute_val_mono:
  assumes "0 < sz" and "x \<le> x'"
  shows "Compute_val C x c sz \<le> Compute_val C x' c sz"
proof -
  from assms(2) have "round64 (x - c) \<le> round64 (x' - c)"
    by (intro round64_mono) simp
  then have "round64 (x - c) / sz \<le> round64 (x' - c) / sz"
    using assms(1) by (simp add: divide_right_mono)
  then have "round64 (round64 (x - c) / sz) \<le> round64 (round64 (x' - c) / sz)"
    by (rule round64_mono)
  then have "round64 (round64 (round64 (x - c) / sz) + of_int C)
      \<le> round64 (round64 (round64 (x' - c) / sz) + of_int C)"
    by (intro round64_mono) simp
  then have "round64 (round64 (round64 (round64 (x - c) / sz) + of_int C) + 1 / 2)
      \<le> round64 (round64 (round64 (round64 (x' - c) / sz) + of_int C) + 1 / 2)"
    by (intro round64_mono) simp
  then show ?thesis
    by (simp add: Compute_val_def)
qed

lemma SIZE_OF_GRIDS_eq: "SIZE_OF_GRIDS = 8738133 / 16384"
  by code_simp

lemma CENTER_GRID_OFFSET_eq: "CENTER_GRID_OFFSET = 8738133 / 32768"
  by code_simp

lemma SIZE_OF_GRID_CELL_eq: "SIZE_OF_GRID_CELL = 8738133 / 131072"
  by code_simp

lemma CENTER_GRID_CELL_OFFSET_eq: "CENTER_GRID_CELL_OFFSET = 8738133 / 262144"
  by code_simp

lemma MAP_HALFSIZE_eq: "MAP_HALFSIZE = 8738133 / 512"
  by code_simp

lemma bound_eq: "round32 (MAP_HALFSIZE - 1 / 2) = 8737877 / 512"
  by code_simp

section \<open>Properties of the coordinate functions\<close>

lemma IsValidMapCoord_Finite: "IsValidMapCoord (Finite r) \<longleftrightarrow> \<bar>r\<bar> \<le> 8737877 / 512"
  by (simp add: IsValidMapCoord_def bound_eq)

lemma IsValidMapCoord_nonfinite:
  "\<not> IsValidMapCoord PInf" "\<not> IsValidMapCoord NInf" "\<not> IsValidMapCoord NaN"
  by (simp_all add: IsValidMapCoord_def)

lemma within_map_bounds_iff: "within_map_bounds c = IsValidMapCoord c"
  by (cases c)
    (simp_all add: within_map_bounds_def IsValidMapCoord_Finite IsValidMapCoord_nonfinite
      MAP_HALFSIZE_eq)

lemma IsValidMapCoord_iff:
  "IsValidMapCoord c \<longleftrightarrow> (\<exists>r. c = Finite r \<and> \<bar>r\<bar> \<le> 8737877 / 512)"
  by (cases c) (simp_all add: IsValidMapCoord_Finite IsValidMapCoord_nonfinite)

lemma CENTER_GRID_ID_eq: "CENTER_GRID_ID = 32"
  by (simp add: CENTER_GRID_ID_def MAX_NUMBER_OF_GRIDS_def)

lemma CENTER_GRID_CELL_ID_eq: "CENTER_GRID_CELL_ID = 256"
  by (simp add: CENTER_GRID_CELL_ID_def MAX_NUMBER_OF_GRIDS_def MAX_NUMBER_OF_CELLS_def)

lemma grid_val_close:
  assumes "\<bar>r\<bar> \<le> 8737877 / 512"
  shows "\<bar>Compute_val CENTER_GRID_ID r CENTER_GRID_OFFSET SIZE_OF_GRIDS
           - (r / SIZE_OF_GRIDS + 32)\<bar> \<le> 1 / 2 ^ 43"
proof -
  have "\<bar>r - 8738133 / 32768\<bar> \<le> 64 * (8738133 / 16384)"
    using assms by linarith
  then have "\<bar>Compute_val 32 r (8738133 / 32768) (8738133 / 16384)
      - ((r - 8738133 / 32768) / (8738133 / 16384) + of_int 32 + 1 / 2)\<bar> \<le> 16 * 64 / 2 ^ 53"
    by (intro Compute_val_err) simp_all
  moreover have "(r - 8738133 / 32768) / (8738133 / 16384) + of_int 32 + 1 / 2
      = r / (8738133 / 16384) + 32"
    by (simp add: field_simps)
  ultimately show ?thesis
    by (simp add: CENTER_GRID_ID_eq CENTER_GRID_OFFSET_eq SIZE_OF_GRIDS_eq)
qed

lemma cell_val_close:
  assumes "\<bar>r\<bar> \<le> 8737877 / 512"
  shows "\<bar>Compute_val CENTER_GRID_CELL_ID r CENTER_GRID_CELL_OFFSET SIZE_OF_GRID_CELL
           - 8 * (r / SIZE_OF_GRIDS + 32)\<bar> \<le> 1 / 2 ^ 40"
proof -
  have "\<bar>r - 8738133 / 262144\<bar> \<le> 512 * (8738133 / 131072)"
    using assms by linarith
  then have "\<bar>Compute_val 256 r (8738133 / 262144) (8738133 / 131072)
      - ((r - 8738133 / 262144) / (8738133 / 131072) + of_int 256 + 1 / 2)\<bar> \<le> 16 * 512 / 2 ^ 53"
    by (intro Compute_val_err) simp_all
  moreover have "(r - 8738133 / 262144) / (8738133 / 131072) + of_int 256 + 1 / 2
      = 8 * (r / (8738133 / 16384) + 32)"
    by (simp add: field_simps)
  ultimately show ?thesis
    by (simp add: CENTER_GRID_CELL_ID_eq CENTER_GRID_CELL_OFFSET_eq SIZE_OF_GRID_CELL_eq
        SIZE_OF_GRIDS_eq)
qed

lemma scaled_range:
  assumes "\<bar>r\<bar> \<le> 8737877 / 512"
  shows "1 / 2 ^ 11 \<le> r / SIZE_OF_GRIDS + 32" and "r / SIZE_OF_GRIDS + 32 \<le> 64 - 1 / 2 ^ 11"
  using assms by (simp_all add: SIZE_OF_GRIDS_eq abs_le_iff field_simps)

lemma to_int_floor:
  assumes "0 \<le> v" and "v < 2 ^ 31"
  shows "to_int v = Some \<lfloor>v\<rfloor>"
proof -
  from assms(1) have "0 \<le> \<lfloor>v\<rfloor>" by simp
  moreover from assms(2) have "\<lfloor>v\<rfloor> < 2 ^ 31"
    by (simp add: floor_less_iff)
  ultimately show ?thesis
    using assms(1) by (simp add: to_int_def Let_def)
qed

lemma uint_word_of_int_small:
  assumes "0 \<le> t" and "t < 2 ^ 32"
  shows "uint (word_of_int t :: uint32) = t"
  using assms by (simp add: uint_word_of_int)

lemma word_of_int_less:
  assumes "0 \<le> t" and "t < L" and "L \<le> 2 ^ 31"
  shows "(word_of_int t :: uint32) < word_of_int L" and "unat (word_of_int t :: uint32) < nat L"
proof -
  have t: "uint (word_of_int t :: uint32) = t"
    using assms by (intro uint_word_of_int_small) simp_all
  have L: "uint (word_of_int L :: uint32) = L"
    using assms by (intro uint_word_of_int_small) simp_all
  show "(word_of_int t :: uint32) < word_of_int L"
    using assms(2) by (simp add: word_less_def t L)
  have "int (unat (word_of_int t :: uint32)) = t"
    using t by simp
  with assms(1,2) show "unat (word_of_int t :: uint32) < nat L"
    by linarith
qed

lemma word_of_int_div8:
  assumes "0 \<le> t" and "t < 2 ^ 31"
  shows "(word_of_int t :: uint32) div 8 = word_of_int (t div 8)"
proof -
  have t: "uint (word_of_int t :: uint32) = t"
    using assms by (intro uint_word_of_int_small) simp_all
  have "0 \<le> t div 8" "t div 8 < 2 ^ 32"
    using assms by simp_all
  then have d: "uint (word_of_int (t div 8) :: uint32) = t div 8"
    by (rule uint_word_of_int_small)
  have "uint ((word_of_int t :: uint32) div 8) = t div 8"
    by (simp add: uint_div t)
  with d show ?thesis
    by (simp add: word_uint_eq_iff)
qed

lemma coord_in_range:
  assumes "0 \<le> v" and "v < of_int L" and "L \<le> 2 ^ 31"
  shows "\<exists>t. to_int v = Some t \<and> t = \<lfloor>v\<rfloor> \<and> 0 \<le> t \<and> t < L
             \<and> (word_of_int t :: uint32) < word_of_int L
             \<and> unat (word_of_int t :: uint32) < nat L"
proof -
  from assms have f: "0 \<le> \<lfloor>v\<rfloor>" "\<lfloor>v\<rfloor> < L"
    by (simp_all add: floor_less_iff)
  have "(of_int L :: rat) \<le> of_int (2 ^ 31)"
    using assms(3) by (simp only: of_int_le_iff)
  with assms(2) have "v < 2 ^ 31"
    by simp
  with assms(1) have "to_int v = Some \<lfloor>v\<rfloor>"
    by (rule to_int_floor)
  with f word_of_int_less [OF f assms(3)] show ?thesis
    by simp
qed

lemma grid_val_range:
  assumes "\<bar>r\<bar> \<le> 8737877 / 512"
  shows "0 \<le> Compute_val CENTER_GRID_ID r CENTER_GRID_OFFSET SIZE_OF_GRIDS"
    and "Compute_val CENTER_GRID_ID r CENTER_GRID_OFFSET SIZE_OF_GRIDS < 64"
proof -
  have "(1::rat) / 2 ^ 43 < 1 / 2 ^ 11" "(0::rat) < 1 / 2 ^ 11"
    by simp_all
  with grid_val_close [OF assms] scaled_range [OF assms]
  show "0 \<le> Compute_val CENTER_GRID_ID r CENTER_GRID_OFFSET SIZE_OF_GRIDS"
    and "Compute_val CENTER_GRID_ID r CENTER_GRID_OFFSET SIZE_OF_GRIDS < 64"
    by linarith+
qed

lemma cell_val_range:
  assumes "\<bar>r\<bar> \<le> 8737877 / 512"
  shows "0 \<le> Compute_val CENTER_GRID_CELL_ID r CENTER_GRID_CELL_OFFSET SIZE_OF_GRID_CELL"
    and "Compute_val CENTER_GRID_CELL_ID r CENTER_GRID_CELL_OFFSET SIZE_OF_GRID_CELL < 512"
proof -
  define V where "V = r / SIZE_OF_GRIDS + 32"
  define v where "v = Compute_val CENTER_GRID_CELL_ID r CENTER_GRID_CELL_OFFSET SIZE_OF_GRID_CELL"
  have e: "(1::rat) / 2 ^ 40 < 1 / 2 ^ 11" "(0::rat) < 1 / 2 ^ 11"
    by simp_all
  have c: "\<bar>v - 8 * V\<bar> \<le> 1 / 2 ^ 40"
    unfolding v_def V_def by (rule cell_val_close [OF assms])
  have V: "1 / 2 ^ 11 \<le> V" "V \<le> 64 - 1 / 2 ^ 11"
    unfolding V_def by (rule scaled_range [OF assms])+
  from e c V have "0 \<le> v" and "v < 512"
    by linarith+
  then show "0 \<le> Compute_val CENTER_GRID_CELL_ID r CENTER_GRID_CELL_OFFSET SIZE_OF_GRID_CELL"
    and "Compute_val CENTER_GRID_CELL_ID r CENTER_GRID_CELL_OFFSET SIZE_OF_GRID_CELL < 512"
    by (simp_all add: v_def)
qed

lemma SIZE_OF_GRIDS_nz: "SIZE_OF_GRIDS \<noteq> 0"
  by (simp add: SIZE_OF_GRIDS_eq)

lemma SIZE_OF_GRID_CELL_nz: "SIZE_OF_GRID_CELL \<noteq> 0"
  by (simp add: SIZE_OF_GRID_CELL_eq)

lemma round64_exact:
  assumes "r = of_int k * 2 powi e" and "\<bar>k\<bar> < 2 ^ 53"
  shows "round64 r = r"
  unfolding round64_def assms(1) using assms(2) by (rule rnd_exact)

lemma round64_exact_eq:
  assumes "r = of_int k * 2 powi e" and "\<bar>k\<bar> < 2 ^ 53"
  shows "round64 r = of_int k * 2 powi e"
  using round64_exact [OF assms] assms(1) by simp

lemma round64_ge:
  assumes "f = of_int k * 2 powi e" and "\<bar>k\<bar> < 2 ^ 53" and "f \<le> r"
  shows "f \<le> round64 r"
  using rnd_ge [of k 53 e r] assms by (simp add: round64_def)

lemma grid_val_ge_center:
  assumes "0 \<le> x"
  shows "32 \<le> Compute_val 32 x (8738133 / 32768) (8738133 / 16384)"
proof -
  define d where "d = round64 (x - 8738133 / 32768)"
  define q where "q = round64 (d / (8738133 / 16384))"
  define a where "a = round64 (q + of_int 32)"
  have "- (8738133 / 32768) \<le> d"
    unfolding d_def using assms
    by (intro round64_ge [where k = "- 8738133" and e = "- 15"]) simp_all
  then have "- (1 / 2) \<le> d / (8738133 / 16384)"
    by (simp add: field_simps)
  then have "- (1 / 2) \<le> q"
    unfolding q_def by (intro round64_ge [where k = "- 1" and e = "- 1"]) simp_all
  then have "63 / 2 \<le> q + of_int 32"
    by simp
  then have "63 / 2 \<le> a"
    unfolding a_def by (intro round64_ge [where k = 63 and e = "- 1"]) simp_all
  then have "32 \<le> a + 1 / 2"
    by simp
  then have "32 \<le> round64 (a + 1 / 2)"
    by (intro round64_ge [where k = 32 and e = 0]) simp_all
  then show ?thesis
    by (simp add: Compute_val_def a_def q_def d_def)
qed

lemma cell_val_ge_center:
  assumes "0 \<le> x"
  shows "256 \<le> Compute_val 256 x (8738133 / 262144) (8738133 / 131072)"
proof -
  define d where "d = round64 (x - 8738133 / 262144)"
  define q where "q = round64 (d / (8738133 / 131072))"
  define a where "a = round64 (q + of_int 256)"
  have "- (8738133 / 262144) \<le> d"
    unfolding d_def using assms
    by (intro round64_ge [where k = "- 8738133" and e = "- 18"]) simp_all
  then have "- (1 / 2) \<le> d / (8738133 / 131072)"
    by (simp add: field_simps)
  then have "- (1 / 2) \<le> q"
    unfolding q_def by (intro round64_ge [where k = "- 1" and e = "- 1"]) simp_all
  then have "511 / 2 \<le> q + of_int 256"
    by simp
  then have "511 / 2 \<le> a"
    unfolding a_def by (intro round64_ge [where k = 511 and e = "- 1"]) simp_all
  then have "256 \<le> a + 1 / 2"
    by simp
  then have "256 \<le> round64 (a + 1 / 2)"
    by (intro round64_ge [where k = 256 and e = 0]) simp_all
  then show ?thesis
    by (simp add: Compute_val_def a_def q_def d_def)
qed

lemma grid_val_exact:
  assumes x: "x = of_int m * (8738133 / 16384)" and m: "\<bar>m\<bar> \<le> 31"
  shows "Compute_val 32 x (8738133 / 32768) (8738133 / 16384) = of_int m + 32"
proof -
  have k: "\<bar>(2 * m - 1) * 8738133\<bar> < 2 ^ 53" "\<bar>2 * m - 1\<bar> < 2 ^ 53"
    "\<bar>2 * m + 63\<bar> < 2 ^ 53" "\<bar>m + 32\<bar> < 2 ^ 53"
    using m by (simp_all add: abs_mult)
  have d: "round64 (x - 8738133 / 32768) = of_int ((2 * m - 1) * 8738133) * 2 powi (- 15)"
    using k(1) by (intro round64_exact_eq [where k = "(2 * m - 1) * 8738133" and e = "- 15"])
      (simp_all add: x field_simps)
  have q: "round64 (of_int ((2 * m - 1) * 8738133) * 2 powi (- 15) / (8738133 / 16384))
      = of_int (2 * m - 1) * 2 powi (- 1)"
    using k(2) by (intro round64_exact_eq [where k = "2 * m - 1" and e = "- 1"])
      (simp_all add: field_simps)
  have a: "round64 (of_int (2 * m - 1) * 2 powi (- 1) + of_int 32)
      = of_int (2 * m + 63) * 2 powi (- 1)"
    using k(3) by (intro round64_exact_eq [where k = "2 * m + 63" and e = "- 1"])
      (simp_all add: field_simps)
  have v: "round64 (of_int (2 * m + 63) * 2 powi (- 1) + 1 / 2) = of_int (m + 32) * 2 powi 0"
    using k(4) by (intro round64_exact_eq [where k = "m + 32" and e = 0])
      (simp_all add: field_simps)
  show ?thesis
    unfolding Compute_val_def d q a v by simp
qed

lemma cell_val_exact:
  assumes x: "x = of_int m * (8738133 / 16384)" and m: "\<bar>m\<bar> \<le> 31"
  shows "Compute_val 256 x (8738133 / 262144) (8738133 / 131072) = 8 * of_int m + 256"
proof -
  have k: "\<bar>(16 * m - 1) * 8738133\<bar> < 2 ^ 53" "\<bar>16 * m - 1\<bar> < 2 ^ 53"
    "\<bar>16 * m + 511\<bar> < 2 ^ 53" "\<bar>8 * m + 256\<bar> < 2 ^ 53"
    using m by (simp_all add: abs_mult)
  have d: "round64 (x - 8738133 / 262144) = of_int ((16 * m - 1) * 8738133) * 2 powi (- 18)"
    using k(1) by (intro round64_exact_eq [where k = "(16 * m - 1) * 8738133" and e = "- 18"])
      (simp_all add: x field_simps)
  have q: "round64 (of_int ((16 * m - 1) * 8738133) * 2 powi (- 18) / (8738133 / 131072))
      = of_int (16 * m - 1) * 2 powi (- 1)"
    using k(2) by (intro round64_exact_eq [where k = "16 * m - 1" and e = "- 1"])
      (simp_all add: field_simps)
  have a: "round64 (of_int (16 * m - 1) * 2 powi (- 1) + of_int 256)
      = of_int (16 * m + 511) * 2 powi (- 1)"
    using k(3) by (intro round64_exact_eq [where k = "16 * m + 511" and e = "- 1"])
      (simp_all add: field_simps)
  have v: "round64 (of_int (16 * m + 511) * 2 powi (- 1) + 1 / 2)
      = of_int (8 * m + 256) * 2 powi 0"
    using k(4) by (intro round64_exact_eq [where k = "8 * m + 256" and e = 0])
      (simp_all add: field_simps)
  show ?thesis
    unfolding Compute_val_def d q a v by simp
qed


text \<open>
  Claim C1. For every position \<open>(x, y)\<close> with \<open>IsValidMapCoord(x, y)\<close>,
  \<open>ComputeCellCoord(x, y)\<close> is defined and both of its components are below 512, and
  \<open>ComputeGridCoord(x, y)\<close> is defined and both of its components are below 64; that is,
  \<open>IsCoordValid\<close> holds of each result.
\<close>

theorem C1_valid_coords_in_range:
  assumes "IsValidMapCoord_xy x y"
  shows "\<exists>c g. ComputeCellCoord x y = Some c \<and> IsCoordValid CellLimit c
             \<and> unat (x_coord c) < 512 \<and> unat (y_coord c) < 512
             \<and> ComputeGridCoord x y = Some g \<and> IsCoordValid GridLimit g
             \<and> unat (x_coord g) < 64 \<and> unat (y_coord g) < 64"
proof -
  from assms obtain xr yr where x: "x = Finite xr" "\<bar>xr\<bar> \<le> 8737877 / 512"
    and y: "y = Finite yr" "\<bar>yr\<bar> \<le> 8737877 / 512"
    by (auto simp: IsValidMapCoord_xy_def IsValidMapCoord_iff)
  obtain gx where gx: "to_int (Compute_val CENTER_GRID_ID xr CENTER_GRID_OFFSET SIZE_OF_GRIDS) = Some gx"
      "(word_of_int gx :: uint32) < word_of_int 64" "unat (word_of_int gx :: uint32) < nat 64"
    using coord_in_range [of _ 64, OF grid_val_range(1) [OF x(2)]] grid_val_range(2) [OF x(2)]
    by auto
  obtain gy where gy: "to_int (Compute_val CENTER_GRID_ID yr CENTER_GRID_OFFSET SIZE_OF_GRIDS) = Some gy"
      "(word_of_int gy :: uint32) < word_of_int 64" "unat (word_of_int gy :: uint32) < nat 64"
    using coord_in_range [of _ 64, OF grid_val_range(1) [OF y(2)]] grid_val_range(2) [OF y(2)]
    by auto
  obtain cx where cx: "to_int (Compute_val CENTER_GRID_CELL_ID xr CENTER_GRID_CELL_OFFSET SIZE_OF_GRID_CELL) = Some cx"
      "(word_of_int cx :: uint32) < word_of_int 512" "unat (word_of_int cx :: uint32) < nat 512"
    using coord_in_range [of _ 512, OF cell_val_range(1) [OF x(2)]] cell_val_range(2) [OF x(2)]
    by auto
  obtain cy where cy: "to_int (Compute_val CENTER_GRID_CELL_ID yr CENTER_GRID_CELL_OFFSET SIZE_OF_GRID_CELL) = Some cy"
      "(word_of_int cy :: uint32) < word_of_int 512" "unat (word_of_int cy :: uint32) < nat 512"
    using coord_in_range [of _ 512, OF cell_val_range(1) [OF y(2)]] cell_val_range(2) [OF y(2)]
    by auto
  have g: "ComputeGridCoord x y = Some \<lparr>x_coord = word_of_int gx, y_coord = word_of_int gy\<rparr>"
    using gx(1) gy(1) by (simp add: ComputeGridCoord_def x(1) y(1) Compute_Finite SIZE_OF_GRIDS_nz)
  have c: "ComputeCellCoord x y = Some \<lparr>x_coord = word_of_int cx, y_coord = word_of_int cy\<rparr>"
    using cx(1) cy(1) by (simp add: ComputeCellCoord_def x(1) y(1) Compute_Finite SIZE_OF_GRID_CELL_nz)
  show ?thesis
    using gx(2,3) gy(2,3) cx(2,3) cy(2,3)
    by (simp add: g c IsCoordValid_def GridLimit_eq CellLimit_eq)
qed

text \<open>
  The instance at the corner \<open>(MAP_HALFSIZE - 0.5, - (MAP_HALFSIZE - 0.5))\<close> of the map,
  where the results are the extreme cell (511, 0) and the extreme grid (63, 0).
\<close>

theorem C1_valid_coords_in_range_witness:
  "IsValidMapCoord_xy (Finite (8737877 / 512)) (Finite (- (8737877 / 512)))
   \<and> ComputeCellCoord (Finite (8737877 / 512)) (Finite (- (8737877 / 512)))
       = Some \<lparr>x_coord = 511, y_coord = 0\<rparr>
   \<and> ComputeGridCoord (Finite (8737877 / 512)) (Finite (- (8737877 / 512)))
       = Some \<lparr>x_coord = 63, y_coord = 0\<rparr>
   \<and> (\<exists>c g. ComputeCellCoord (Finite (8737877 / 512)) (Finite (- (8737877 / 512))) = Some c
         \<and> IsCoordValid CellLimit c \<and> unat (x_coord c) < 512 \<and> unat (y_coord c) < 512
         \<and> ComputeGridCoord (Finite (8737877 / 512)) (Finite (- (8737877 / 512))) = Some g
         \<and> IsCoordValid GridLimit g \<and> unat (x_coord g) < 64 \<and> unat (y_coord g) < 64)"
proof -
  have v: "IsValidMapCoord_xy (Finite (8737877 / 512)) (Finite (- (8737877 / 512)))"
    by (simp add: IsValidMapCoord_xy_def IsValidMapCoord_Finite)
  have cx: "to_int (Compute_val 256 (8737877 / 512) (8738133 / 262144) (8738133 / 131072))
      = Some 511"
    by code_simp
  have cy: "to_int (Compute_val 256 (- (8737877 / 512)) (8738133 / 262144) (8738133 / 131072))
      = Some 0"
    by code_simp
  have gx: "to_int (Compute_val 32 (8737877 / 512) (8738133 / 32768) (8738133 / 16384))
      = Some 63"
    by code_simp
  have gy: "to_int (Compute_val 32 (- (8737877 / 512)) (8738133 / 32768) (8738133 / 16384))
      = Some 0"
    by code_simp
  have c: "ComputeCellCoord (Finite (8737877 / 512)) (Finite (- (8737877 / 512)))
      = Some \<lparr>x_coord = 511, y_coord = 0\<rparr>"
    using cx cy
    by (simp add: ComputeCellCoord_def Compute_Finite SIZE_OF_GRID_CELL_nz CENTER_GRID_CELL_ID_eq
        CENTER_GRID_CELL_OFFSET_eq SIZE_OF_GRID_CELL_eq)
  have g: "ComputeGridCoord (Finite (8737877 / 512)) (Finite (- (8737877 / 512)))
      = Some \<lparr>x_coord = 63, y_coord = 0\<rparr>"
    using gx gy
    by (simp add: ComputeGridCoord_def Compute_Finite SIZE_OF_GRIDS_nz CENTER_GRID_ID_eq
        CENTER_GRID_OFFSET_eq SIZE_OF_GRIDS_eq)
  from C1_valid_coords_in_range [OF v] v c g show ?thesis
    by blast
qed

text \<open>
  Claim C3, as amended. \<open>IsValidMapCoord(c)\<close>, \<open>IsValidMapCoord(x, y)\<close> and
  \<open>IsValidMapCoord(x, y, z)\<close> are true if and only if every argument is finite and its
  absolute value is at most \<open>MAP_HALFSIZE - 0.5\<close>; \<open>IsValidMapCoord(x, y, z, o)\<close> is true
  if and only if \<open>x\<close>, \<open>y\<close> and \<open>z\<close> are so and \<open>o\<close> is finite, with no bound on \<open>o\<close>.
  A coordinate exactly at the boundary, of either sign, is valid.
\<close>

theorem C3_valid_iff_bounds:
  "IsValidMapCoord c = within_map_bounds c
   \<and> IsValidMapCoord_xy x y = (within_map_bounds x \<and> within_map_bounds y)
   \<and> IsValidMapCoord_xyz x y z
       = (within_map_bounds x \<and> within_map_bounds y \<and> within_map_bounds z)
   \<and> IsValidMapCoord_xyzo x y z ori
       = (within_map_bounds x \<and> within_map_bounds y \<and> within_map_bounds z \<and> isfinite ori)
   \<and> IsValidMapCoord (Finite (MAP_HALFSIZE - 1 / 2))
   \<and> IsValidMapCoord (Finite (- (MAP_HALFSIZE - 1 / 2)))"
  by (simp add: within_map_bounds_iff IsValidMapCoord_xy_def IsValidMapCoord_xyz_def
      IsValidMapCoord_xyzo_def IsValidMapCoord_Finite MAP_HALFSIZE_eq)

text \<open>
  The orientation is not bounded: \<open>IsValidMapCoord(0, 0, 0, 20000)\<close> is true although
  20000 exceeds \<open>MAP_HALFSIZE - 0.5\<close>.
\<close>

theorem C3_counterexample:
  "IsValidMapCoord_xyzo (Finite 0) (Finite 0) (Finite 0) (Finite 20000)
   \<and> \<not> within_map_bounds (Finite 20000)"
  by (simp add: IsValidMapCoord_xyzo_def IsValidMapCoord_xyz_def IsValidMapCoord_xy_def
      IsValidMapCoord_Finite within_map_bounds_def MAP_HALFSIZE_eq)

text \<open>
  Claim C4. For every finite \<open>c\<close>, the value left by \<open>NormalizeMapCoord(c)\<close> satisfies
  \<open>IsValidMapCoord\<close>; a \<open>c\<close> that is already valid is left unchanged; and
  \<open>NormalizeMapCoord\<close> is idempotent.
\<close>

theorem C4_normalize_valid:
  assumes "isfinite c"
  shows "IsValidMapCoord (NormalizeMapCoord c)
       \<and> (IsValidMapCoord c \<longrightarrow> NormalizeMapCoord c = c)
       \<and> NormalizeMapCoord (NormalizeMapCoord c) = NormalizeMapCoord c"
proof -
  from assms obtain r where c: "c = Finite r"
    by (cases c) simp_all
  consider "8737877 / 512 < r" | "r < - (8737877 / 512)" | "\<bar>r\<bar> \<le> 8737877 / 512"
    by linarith
  then show ?thesis
  proof cases
    case 1
    then have "NormalizeMapCoord c = Finite (8737877 / 512)" "\<not> IsValidMapCoord c"
      by (simp_all add: c NormalizeMapCoord_def f_gt_def bound_eq IsValidMapCoord_Finite)
    then show ?thesis
      by (simp add: IsValidMapCoord_Finite NormalizeMapCoord_def f_gt_def bound_eq)
  next
    case 2
    then have "NormalizeMapCoord c = Finite (- (8737877 / 512))" "\<not> IsValidMapCoord c"
      by (simp_all add: c NormalizeMapCoord_def f_gt_def bound_eq IsValidMapCoord_Finite)
    then show ?thesis
      by (simp add: IsValidMapCoord_Finite NormalizeMapCoord_def f_gt_def bound_eq)
  next
    case 3
    then have "\<not> 8737877 / 512 < r" "\<not> r < - (8737877 / 512)"
      by linarith+
    then have "NormalizeMapCoord c = c"
      by (simp add: c NormalizeMapCoord_def f_gt_def bound_eq)
    with 3 show ?thesis
      by (simp add: c IsValidMapCoord_Finite)
  qed
qed

text \<open>
  Two instances: 20000 is not valid and is clamped to the boundary value
  \<open>8737877 / 512 = 17066.166015625\<close>; - 100 is valid and is left unchanged.
\<close>

theorem C4_normalize_valid_witness:
  "isfinite (Finite 20000) \<and> \<not> IsValidMapCoord (Finite 20000)
   \<and> NormalizeMapCoord (Finite 20000) = Finite (8737877 / 512)
   \<and> IsValidMapCoord (NormalizeMapCoord (Finite 20000))
   \<and> isfinite (Finite (- 100)) \<and> IsValidMapCoord (Finite (- 100))
   \<and> NormalizeMapCoord (Finite (- 100)) = Finite (- 100)
   \<and> NormalizeMapCoord (NormalizeMapCoord (Finite 20000)) = NormalizeMapCoord (Finite 20000)"
proof -
  have a: "isfinite (Finite 20000)" and b: "isfinite (Finite (- 100))"
    by simp_all
  have v: "IsValidMapCoord (Finite (- 100))" and n: "\<not> IsValidMapCoord (Finite 20000)"
    by (simp_all add: IsValidMapCoord_Finite)
  have e: "NormalizeMapCoord (Finite 20000) = Finite (8737877 / 512)"
    by (simp add: NormalizeMapCoord_def f_gt_def bound_eq)
  from C4_normalize_valid [OF a] C4_normalize_valid [OF b] a b v n e show ?thesis
    by simp
qed

text \<open>
  Claim C6. \<open>ComputeGridCoord(0, 0)\<close> is the centre grid coordinate (32, 32) and
  \<open>ComputeCellCoord(0, 0)\<close> is the centre cell coordinate (256, 256).
\<close>

theorem C6_origin_is_center:
  "ComputeGridCoord (Finite 0) (Finite 0)
     = Some \<lparr>x_coord = word_of_int CENTER_GRID_ID, y_coord = word_of_int CENTER_GRID_ID\<rparr>
   \<and> ComputeCellCoord (Finite 0) (Finite 0)
     = Some \<lparr>x_coord = word_of_int CENTER_GRID_CELL_ID, y_coord = word_of_int CENTER_GRID_CELL_ID\<rparr>
   \<and> (word_of_int CENTER_GRID_ID :: uint32) = 32
   \<and> (word_of_int CENTER_GRID_CELL_ID :: uint32) = 256"
proof -
  have g: "to_int (Compute_val 32 0 (8738133 / 32768) (8738133 / 16384)) = Some 32"
    by code_simp
  have c: "to_int (Compute_val 256 0 (8738133 / 262144) (8738133 / 131072)) = Some 256"
    by code_simp
  have "ComputeGridCoord (Finite 0) (Finite 0) = Some \<lparr>x_coord = 32, y_coord = 32\<rparr>"
    using g
    by (simp add: ComputeGridCoord_def Compute_Finite SIZE_OF_GRIDS_nz CENTER_GRID_ID_eq
        CENTER_GRID_OFFSET_eq SIZE_OF_GRIDS_eq)
  moreover have "ComputeCellCoord (Finite 0) (Finite 0) = Some \<lparr>x_coord = 256, y_coord = 256\<rparr>"
    using c
    by (simp add: ComputeCellCoord_def Compute_Finite SIZE_OF_GRID_CELL_nz CENTER_GRID_CELL_ID_eq
        CENTER_GRID_CELL_OFFSET_eq SIZE_OF_GRID_CELL_eq)
  ultimately show ?thesis
    by (simp add: CENTER_GRID_ID_eq CENTER_GRID_CELL_ID_eq)
qed

lemma nesting_component:
  assumes B: "\<bar>r\<bar> \<le> 8737877 / 512"
    and lo: "1 / 2 ^ 40 \<le> frac (r / SIZE_OF_GRIDS)"
    and hi: "frac (r / SIZE_OF_GRIDS) \<le> 1 - 1 / 2 ^ 40"
  shows "\<exists>tc tg.
      to_int (Compute_val CENTER_GRID_CELL_ID r CENTER_GRID_CELL_OFFSET SIZE_OF_GRID_CELL) = Some tc
    \<and> to_int (Compute_val CENTER_GRID_ID r CENTER_GRID_OFFSET SIZE_OF_GRIDS) = Some tg
    \<and> (word_of_int tc :: uint32) div 8 = word_of_int tg
    \<and> tg = \<lfloor>r / SIZE_OF_GRIDS\<rfloor> + 32"
proof -
  define V where "V = r / SIZE_OF_GRIDS + 32"
  define n where "n = \<lfloor>r / SIZE_OF_GRIDS\<rfloor> + 32"
  define vg where "vg = Compute_val CENTER_GRID_ID r CENTER_GRID_OFFSET SIZE_OF_GRIDS"
  define vc where "vc = Compute_val CENTER_GRID_CELL_ID r CENTER_GRID_CELL_OFFSET SIZE_OF_GRID_CELL"
  have e: "(1::rat) / 2 ^ 43 < 1 / 2 ^ 40" "(0::rat) < 1 / 2 ^ 40"
    by simp_all
  have fr: "frac (r / SIZE_OF_GRIDS) = r / SIZE_OF_GRIDS - of_int \<lfloor>r / SIZE_OF_GRIDS\<rfloor>"
    by (simp add: frac_def)
  have nn: "(of_int n :: rat) = of_int \<lfloor>r / SIZE_OF_GRIDS\<rfloor> + 32"
    by (simp add: n_def)
  have Vn: "of_int n + 1 / 2 ^ 40 \<le> V" "V \<le> of_int n + 1 - 1 / 2 ^ 40"
    using lo hi unfolding V_def nn fr by linarith+
  have g: "\<bar>vg - V\<bar> \<le> 1 / 2 ^ 43"
    unfolding vg_def V_def by (rule grid_val_close [OF B])
  have c: "\<bar>vc - 8 * V\<bar> \<le> 1 / 2 ^ 40"
    unfolding vc_def V_def by (rule cell_val_close [OF B])
  from e Vn g have "of_int n \<le> vg" "vg < of_int n + 1"
    by linarith+
  then have fg: "\<lfloor>vg\<rfloor> = n"
    by (simp add: floor_unique)
  from e Vn c have "of_int (8 * n) \<le> vc" "vc < of_int (8 * n + 8)"
    by (simp_all, linarith+)
  then have "8 * n \<le> \<lfloor>vc\<rfloor>" "\<lfloor>vc\<rfloor> < 8 * n + 8"
    by (simp_all only: le_floor_iff floor_less_iff)
  then have fc: "\<lfloor>vc\<rfloor> div 8 = n"
    by linarith
  have rg: "0 \<le> vg" "vg < 2 ^ 31"
    using grid_val_range [OF B] by (simp_all add: vg_def)
  have rc: "0 \<le> vc" "vc < 2 ^ 31"
    using cell_val_range [OF B] by (simp_all add: vc_def)
  have tg: "to_int vg = Some \<lfloor>vg\<rfloor>"
    using rg by (rule to_int_floor)
  have tc: "to_int vc = Some \<lfloor>vc\<rfloor>"
    using rc by (rule to_int_floor)
  have "0 \<le> \<lfloor>vc\<rfloor>" "\<lfloor>vc\<rfloor> < 2 ^ 31"
    using rc by (simp_all add: floor_less_iff)
  then have "(word_of_int \<lfloor>vc\<rfloor> :: uint32) div 8 = word_of_int (\<lfloor>vc\<rfloor> div 8)"
    by (rule word_of_int_div8)
  with fc fg tg tc show ?thesis
    by (simp add: vg_def vc_def n_def)
qed

lemma MAX_NUMBER_OF_CELLS_word: "(word_of_int MAX_NUMBER_OF_CELLS :: uint32) = 8"
  by (simp add: MAX_NUMBER_OF_CELLS_def)

lemma float32_multiple:
  assumes f: "is_float32 r" and big: "512 \<le> \<bar>r\<bar>"
  shows "\<exists>K. r * 2 ^ 14 = of_int K"
proof -
  from big have "r \<noteq> 0" by auto
  have "(2::rat) powi 9 \<le> \<bar>r\<bar>"
    using big by simp
  then have e: "9 \<le> expo r"
    by (rule expo_ge)
  then have mx: "max (expo r - 23) (- 149) = expo r - 23"
    by simp
  from f \<open>r \<noteq> 0\<close> have "r / 2 powi (expo r - 23) = of_int \<lfloor>r / 2 powi (expo r - 23)\<rfloor>"
    by (simp add: is_float32_def Let_def mx)
  then obtain n :: int where "r / 2 powi (expo r - 23) = of_int n" ..
  then have r: "r = of_int n * 2 powi (expo r - 23)"
    by (simp add: field_simps)
  define j where "j = nat (expo r - 9)"
  have "expo r - 23 = int j + (- 14)"
    using e by (simp add: j_def)
  then have "(2::rat) powi (expo r - 23) = 2 ^ j * 2 powi (- 14)"
    by (metis power_int_add power_int_of_nat zero_neq_numeral)
  then have "(2::rat) powi (expo r - 23) * 2 ^ 14 = 2 ^ j"
    by simp
  then have "r * 2 ^ 14 = of_int n * 2 ^ j"
    using r by (metis mult.assoc)
  then have "r * 2 ^ 14 = of_int (n * 2 ^ j)"
    by simp
  then show ?thesis ..
qed

lemma nesting_from_bounds:
  assumes g: "of_int n \<le> vg" "vg < of_int n + 1"
    and c: "of_int (8 * n) \<le> vc" "vc < of_int (8 * n + 8)"
    and n: "0 \<le> n" "n < 64"
  shows "\<exists>tc tg. to_int vc = Some tc \<and> to_int vg = Some tg
           \<and> (word_of_int tc :: uint32) div 8 = word_of_int tg \<and> tg = n"
proof -
  from g have fg: "\<lfloor>vg\<rfloor> = n"
    by (simp add: floor_unique)
  from c have "8 * n \<le> \<lfloor>vc\<rfloor>" "\<lfloor>vc\<rfloor> < 8 * n + 8"
    by (simp_all only: le_floor_iff floor_less_iff)
  then have fc: "\<lfloor>vc\<rfloor> div 8 = n" and rfc0: "0 \<le> \<lfloor>vc\<rfloor>" "\<lfloor>vc\<rfloor> < 520"
    using n by linarith+
  from rfc0 have rfc: "0 \<le> \<lfloor>vc\<rfloor>" "\<lfloor>vc\<rfloor> < 2 ^ 31"
    by simp_all
  have "(0::rat) \<le> of_int n" "(of_int n :: rat) + 1 \<le> 64"
    using n by simp_all
  with g have rg: "0 \<le> vg" "vg < 2 ^ 31"
    by simp_all
  have "(0::rat) \<le> of_int (8 * n)" "(of_int (8 * n + 8) :: rat) \<le> of_int 512"
    using n by (simp_all only: of_int_le_iff of_int_0_le_iff)
  with c have rc: "0 \<le> vc" "vc < 2 ^ 31"
    by simp_all
  have tg: "to_int vg = Some \<lfloor>vg\<rfloor>"
    using rg by (rule to_int_floor)
  have tc: "to_int vc = Some \<lfloor>vc\<rfloor>"
    using rc by (rule to_int_floor)
  have "(word_of_int \<lfloor>vc\<rfloor> :: uint32) div 8 = word_of_int (\<lfloor>vc\<rfloor> div 8)"
    using rfc by (rule word_of_int_div8)
  with fc fg tg tc show ?thesis
    by simp
qed

lemma frac_band_small:
  assumes lo: "1 / 2 ^ 30 \<le> \<bar>r\<bar>" and hi: "\<bar>r\<bar> \<le> 512"
  shows "1 / 2 ^ 40 \<le> frac (r / SIZE_OF_GRIDS)" and "frac (r / SIZE_OF_GRIDS) \<le> 1 - 1 / 2 ^ 40"
proof -
  define t where "t = r / (8738133 / 16384)"
  have t: "\<bar>t\<bar> \<le> 8388608 / 8738133" "1 / (2 ^ 16 * 8738133) \<le> \<bar>t\<bar>"
    using lo hi by (simp_all add: t_def abs_divide field_simps)
  have "1 / 2 ^ 40 \<le> frac t \<and> frac t \<le> 1 - 1 / 2 ^ 40"
  proof (cases "0 \<le> t")
    case True
    with t have "\<lfloor>t\<rfloor> = 0"
      by (intro floor_unique) simp_all
    then have "frac t = t"
      by (simp add: frac_def)
    with True t show ?thesis by simp
  next
    case False
    with t have "\<lfloor>t\<rfloor> = - 1"
      by (intro floor_unique) simp_all
    then have "frac t = t + 1"
      by (simp add: frac_def)
    with False t show ?thesis by simp
  qed
  then show "1 / 2 ^ 40 \<le> frac (r / SIZE_OF_GRIDS)"
    and "frac (r / SIZE_OF_GRIDS) \<le> 1 - 1 / 2 ^ 40"
    by (simp_all add: t_def SIZE_OF_GRIDS_eq)
qed

lemma frac_band_multiple:
  assumes K: "r * 2 ^ 14 = of_int K" and nz: "K mod 8738133 \<noteq> 0"
  shows "1 / 2 ^ 40 \<le> frac (r / SIZE_OF_GRIDS)" and "frac (r / SIZE_OF_GRIDS) \<le> 1 - 1 / 2 ^ 40"
proof -
  have q: "r / (8738133 / 16384) = of_int K / of_int 8738133"
    using K by (simp add: field_simps)
  have fl: "\<lfloor>(of_int K :: rat) / of_int 8738133\<rfloor> = K div 8738133"
    by (rule floor_divide_of_int_eq)
  have "K = 8738133 * (K div 8738133) + K mod 8738133"
    by simp
  then have "(of_int K :: rat) = 8738133 * of_int (K div 8738133) + of_int (K mod 8738133)"
    by (metis of_int_add of_int_mult of_int_numeral)
  then have fr: "frac ((of_int K :: rat) / of_int 8738133) = of_int (K mod 8738133) / 8738133"
    unfolding frac_def fl by (simp add: field_simps)
  have "0 \<le> K mod 8738133" "K mod 8738133 < 8738133"
    by simp_all
  with nz have "1 \<le> K mod 8738133" "K mod 8738133 \<le> 8738132"
    by linarith+
  then have "(1::rat) \<le> of_int (K mod 8738133)" "(of_int (K mod 8738133) :: rat) \<le> 8738132"
    by (simp_all only: of_int_le_iff [symmetric, where ?'a = rat] of_int_1 of_int_numeral)
  then have b: "1 / 2 ^ 40 \<le> (of_int (K mod 8738133) :: rat) / 8738133"
    "(of_int (K mod 8738133) :: rat) / 8738133 \<le> 1 - 1 / 2 ^ 40"
    by (simp_all add: field_simps)
  have eq: "frac (r / SIZE_OF_GRIDS) = of_int (K mod 8738133) / 8738133"
    by (simp only: SIZE_OF_GRIDS_eq q fr)
  show "1 / 2 ^ 40 \<le> frac (r / SIZE_OF_GRIDS)"
    and "frac (r / SIZE_OF_GRIDS) \<le> 1 - 1 / 2 ^ 40"
    unfolding eq by (rule b)+
qed

lemma nesting_component_float:
  assumes B: "\<bar>r\<bar> \<le> 8737877 / 512" and F: "is_float32 r"
    and N: "0 \<le> r \<or> r \<le> - (1 / 2 ^ 30)"
  shows "\<exists>tc tg.
      to_int (Compute_val CENTER_GRID_CELL_ID r CENTER_GRID_CELL_OFFSET SIZE_OF_GRID_CELL) = Some tc
    \<and> to_int (Compute_val CENTER_GRID_ID r CENTER_GRID_OFFSET SIZE_OF_GRIDS) = Some tg
    \<and> (word_of_int tc :: uint32) div 8 = word_of_int tg
    \<and> tg = \<lfloor>r / SIZE_OF_GRIDS\<rfloor> + 32"
proof -
  define vg where "vg = Compute_val CENTER_GRID_ID r CENTER_GRID_OFFSET SIZE_OF_GRIDS"
  define vc where "vc = Compute_val CENTER_GRID_CELL_ID r CENTER_GRID_CELL_OFFSET SIZE_OF_GRID_CELL"
  have vg: "vg = Compute_val 32 r (8738133 / 32768) (8738133 / 16384)"
    by (simp add: vg_def CENTER_GRID_ID_eq CENTER_GRID_OFFSET_eq SIZE_OF_GRIDS_eq)
  have vc: "vc = Compute_val 256 r (8738133 / 262144) (8738133 / 131072)"
    by (simp add: vc_def CENTER_GRID_CELL_ID_eq CENTER_GRID_CELL_OFFSET_eq SIZE_OF_GRID_CELL_eq)
  consider (tiny) "0 \<le> r" "r < 1 / 2 ^ 30"
    | (small) "1 / 2 ^ 30 \<le> \<bar>r\<bar>" "\<bar>r\<bar> \<le> 512"
    | (big) "512 < \<bar>r\<bar>"
    using N by linarith
  then have "\<exists>tc tg. to_int vc = Some tc \<and> to_int vg = Some tg
      \<and> (word_of_int tc :: uint32) div 8 = word_of_int tg \<and> tg = \<lfloor>r / SIZE_OF_GRIDS\<rfloor> + 32"
  proof cases
    case tiny
    define V where "V = r / SIZE_OF_GRIDS + 32"
    have q: "0 \<le> r / SIZE_OF_GRIDS" "r / SIZE_OF_GRIDS < 1 / 2 ^ 30"
      using tiny by (simp_all add: SIZE_OF_GRIDS_eq field_simps)
    have "(1::rat) / 2 ^ 30 < 1"
      by simp
    with q(2) have "r / SIZE_OF_GRIDS < 1"
      by linarith
    with q(1) have "of_int 0 \<le> r / SIZE_OF_GRIDS" "r / SIZE_OF_GRIDS < of_int 0 + 1"
      by simp_all
    then have fl: "\<lfloor>r / SIZE_OF_GRIDS\<rfloor> = 0"
      by (rule floor_unique)
    from q have V: "V < 32 + 1 / 2 ^ 30"
      unfolding V_def by linarith
    have e: "(1::rat) / 2 ^ 43 < 1 / 2" "(1::rat) / 2 ^ 40 < 1 / 2" "(1::rat) / 2 ^ 30 < 1 / 16"
      by simp_all
    have "\<bar>vg - V\<bar> \<le> 1 / 2 ^ 43"
      unfolding vg_def V_def by (rule grid_val_close [OF B])
    with V e have "vg < 33"
      by linarith
    then have g2: "vg < of_int 32 + 1"
      by simp
    have "\<bar>vc - 8 * V\<bar> \<le> 1 / 2 ^ 40"
      unfolding vc_def V_def by (rule cell_val_close [OF B])
    with V e have "vc < 264"
      by linarith
    then have c2: "vc < of_int (8 * 32 + 8)"
      by simp
    have g1: "of_int 32 \<le> vg"
      using grid_val_ge_center [OF tiny(1)] by (simp add: vg)
    have c1: "of_int (8 * 32) \<le> vc"
      using cell_val_ge_center [OF tiny(1)] by (simp add: vc)
    from nesting_from_bounds [OF g1 g2 c1 c2] show ?thesis
      by (simp add: fl)
  next
    case small
    from nesting_component [OF B frac_band_small [OF small]] show ?thesis
      by (simp add: vg_def vc_def)
  next
    case big
    then have "512 \<le> \<bar>r\<bar>" by simp
    with F obtain K where K: "r * 2 ^ 14 = of_int K"
      using float32_multiple by blast
    show ?thesis
    proof (cases "K mod 8738133 = 0")
      case False
      from nesting_component [OF B frac_band_multiple [OF K False]] show ?thesis
        by (simp add: vg_def vc_def)
    next
      case True
      define m where "m = K div 8738133"
      from True have "K = 8738133 * m"
        by (auto simp: m_def)
      with K have "r * 2 ^ 14 = 8738133 * of_int m"
        by simp
      then have r: "r = of_int m * (8738133 / 16384)"
        by (simp add: field_simps)
      have "\<bar>of_int m :: rat\<bar> * (8738133 / 16384) \<le> 8737877 / 512"
        using B by (simp add: r abs_mult)
      then have "\<bar>of_int m :: rat\<bar> < 32"
        by (simp add: field_simps)
      then have "(of_int \<bar>m\<bar> :: rat) < of_int 32"
        by simp
      then have "\<bar>m\<bar> < 32"
        by (simp only: of_int_less_iff)
      then have m: "\<bar>m\<bar> \<le> 31"
        by simp
      have fl: "\<lfloor>r / SIZE_OF_GRIDS\<rfloor> = m"
        by (simp add: r SIZE_OF_GRIDS_eq)
      have g: "vg = of_int (m + 32)"
        using grid_val_exact [OF r m] by (simp add: vg)
      have c: "vc = of_int (8 * (m + 32))"
        using cell_val_exact [OF r m] by (simp add: vc)
      have n: "0 \<le> m + 32" "m + 32 < 64"
        using m by simp_all
      have "of_int (m + 32) \<le> vg" "vg < of_int (m + 32) + 1"
        "of_int (8 * (m + 32)) \<le> vc" "vc < of_int (8 * (m + 32) + 8)"
        by (simp_all add: g c)
      from nesting_from_bounds [OF this n] show ?thesis
        by (simp add: fl)
    qed
  qed
  then show ?thesis
    by (simp add: vg_def vc_def)
qed

section \<open>The index computed for a float coordinate\<close>

text \<open>
  A \<open>float\<close> of magnitude at least \<open>2 ^ k\<close> is a multiple of \<open>2 ^ (k - 23)\<close>; in
  particular the largest \<open>float\<close> below zero that exceeds \<open>- N / 2 ^ 48\<close> is at least
  \<open>- (N * 2 ^ 15 - 1) / 2 ^ 63\<close>.
\<close>

lemma float32_on_grid:
  assumes f: "is_float32 r" and big: "2 powi k \<le> \<bar>r\<bar>" and k: "- 126 \<le> k"
  shows "\<exists>n. r = of_int n * 2 powi (k - 23)"
proof -
  have "(0::rat) < 2 powi k" by simp
  with big have "0 < \<bar>r\<bar>" by linarith
  then have nz: "r \<noteq> 0" by simp
  from big have e: "k \<le> expo r"
    by (rule expo_ge)
  with k have mx: "max (expo r - 23) (- 149) = expo r - 23"
    by simp
  from f nz have "r / 2 powi (expo r - 23) = of_int \<lfloor>r / 2 powi (expo r - 23)\<rfloor>"
    by (simp add: is_float32_def Let_def mx)
  then obtain n :: int where "r / 2 powi (expo r - 23) = of_int n" ..
  then have r: "r = of_int n * 2 powi (expo r - 23)"
    by (simp add: field_simps)
  define j where "j = nat (expo r - k)"
  have "expo r - 23 = int j + (k - 23)"
    using e by (simp add: j_def)
  then have "(2::rat) powi (expo r - 23) = 2 ^ j * 2 powi (k - 23)"
    by (metis power_int_add power_int_of_nat zero_neq_numeral)
  with r have "r = of_int n * (2 ^ j * 2 powi (k - 23))"
    by simp
  then have "r = of_int (n * 2 ^ j) * 2 powi (k - 23)"
    by simp
  then show ?thesis ..
qed

lemma neg_float_step:
  assumes f: "is_float32 r" and neg: "r < 0" and gt: "- (of_int N / 2 ^ 48) < r"
    and N: "257 \<le> N"
  shows "- (of_int (N * 2 ^ 15 - 1) / 2 ^ 63) \<le> r"
proof (cases "2 powi (- 40) \<le> \<bar>r\<bar>")
  case True
  from float32_on_grid [OF f True] obtain n where n: "r = of_int n * 2 powi (- 63)"
    by auto
  then have r: "r = of_int n / 2 ^ 63"
    by (simp add: power_int_minus_divide)
  with gt have "- (of_int N / 2 ^ 48) < (of_int n :: rat) / 2 ^ 63"
    by simp
  then have "(of_int (- (N * 2 ^ 15)) :: rat) < of_int n"
    by (simp add: field_simps)
  then have "- (N * 2 ^ 15) < n"
    by (simp only: of_int_less_iff)
  then have "- (N * 2 ^ 15 - 1) \<le> n"
    by simp
  then have "(of_int (- (N * 2 ^ 15 - 1)) :: rat) \<le> of_int n"
    by (simp only: of_int_le_iff)
  then have "(of_int (- (N * 2 ^ 15 - 1)) :: rat) / 2 ^ 63 \<le> of_int n / 2 ^ 63"
    by (intro divide_right_mono) simp_all
  moreover have "(of_int (- (N * 2 ^ 15 - 1)) :: rat) / 2 ^ 63 = - (of_int (N * 2 ^ 15 - 1) / 2 ^ 63)"
    by (simp only: of_int_minus minus_divide_left)
  ultimately have "- (of_int (N * 2 ^ 15 - 1) / 2 ^ 63) \<le> (of_int n :: rat) / 2 ^ 63"
    by (simp only:)
  then show ?thesis
    by (simp only: r)
next
  case False
  then have "\<bar>r\<bar> < 1 / 2 ^ 40"
    by (simp add: power_int_minus_divide)
  with neg have a: "- (1 / 2 ^ 40) < r"
    by simp
  from N have "256 * 2 ^ 15 \<le> N * 2 ^ 15 - 1"
    by simp
  then have "(of_int (256 * 2 ^ 15) :: rat) \<le> of_int (N * 2 ^ 15 - 1)"
    by (simp only: of_int_le_iff)
  then have "(of_int (256 * 2 ^ 15) :: rat) / 2 ^ 63 \<le> of_int (N * 2 ^ 15 - 1) / 2 ^ 63"
    by (simp add: divide_right_mono)
  moreover have "(of_int (256 * 2 ^ 15) :: rat) / 2 ^ 63 = 1 / 2 ^ 40"
    by simp
  ultimately have "(1::rat) / 2 ^ 40 \<le> of_int (N * 2 ^ 15 - 1) / 2 ^ 63"
    by simp
  with a show ?thesis
    by linarith
qed

lemma grid_val_below_band: "Compute_val 32 (- (280 / 2 ^ 48)) (8738133 / 32768) (8738133 / 16384) < 32"
  by code_simp

lemma grid_val_in_band:
  "32 \<le> Compute_val 32 (- (9175039 / 2 ^ 63)) (8738133 / 32768) (8738133 / 16384)"
  by code_simp

lemma cell_val_in_band:
  "Compute_val 256 (- (267 / 2 ^ 48)) (8738133 / 262144) (8738133 / 131072) < 256"
  by code_simp

lemma cell_val_above_band:
  "256 \<le> Compute_val 256 (- (8749055 / 2 ^ 63)) (8738133 / 262144) (8738133 / 131072)"
  by code_simp

lemma grid_component:
  assumes B: "\<bar>r\<bar> \<le> 8737877 / 512" and F: "is_float32 r"
  shows "to_int (Compute_val CENTER_GRID_ID r CENTER_GRID_OFFSET SIZE_OF_GRIDS)
     = Some (if - (280 / 2 ^ 48) < r \<and> r < 0 then 32 else \<lfloor>r / SIZE_OF_GRIDS\<rfloor> + 32)"
proof -
  define vg where "vg = Compute_val CENTER_GRID_ID r CENTER_GRID_OFFSET SIZE_OF_GRIDS"
  define V where "V = r / SIZE_OF_GRIDS + 32"
  have vg: "vg = Compute_val 32 r (8738133 / 32768) (8738133 / 16384)"
    by (simp add: vg_def CENTER_GRID_ID_eq CENTER_GRID_OFFSET_eq SIZE_OF_GRIDS_eq)
  have close: "\<bar>vg - V\<bar> \<le> 1 / 2 ^ 43"
    unfolding vg_def V_def by (rule grid_val_close [OF B])
  have e: "(1::rat) / 2 ^ 43 < 1 / 4" "(280::rat) / 2 ^ 48 \<le> 1 / 2 ^ 30"
    by simp_all
  consider (far) "0 \<le> r \<or> r \<le> - (1 / 2 ^ 30)"
    | (below) "- (1 / 2 ^ 30) < r" "r \<le> - (280 / 2 ^ 48)"
    | (band) "- (280 / 2 ^ 48) < r" "r < 0"
    by linarith
  then have "to_int vg
     = Some (if - (280 / 2 ^ 48) < r \<and> r < 0 then 32 else \<lfloor>r / SIZE_OF_GRIDS\<rfloor> + 32)"
  proof cases
    case far
    from far e(2) have nc: "\<not> (- (280 / 2 ^ 48) < r \<and> r < 0)"
      by linarith
    from nesting_component_float [OF B F far] have "to_int vg = Some (\<lfloor>r / SIZE_OF_GRIDS\<rfloor> + 32)"
      by (auto simp: vg_def)
    then show ?thesis
      unfolding if_not_P [OF nc] .
  next
    case below
    have q: "- (1 / 4) \<le> r / SIZE_OF_GRIDS" "r / SIZE_OF_GRIDS < 0"
      using below by (simp_all add: SIZE_OF_GRIDS_eq field_simps)
    then have "of_int (- 1) \<le> r / SIZE_OF_GRIDS" "r / SIZE_OF_GRIDS < of_int (- 1) + 1"
      by simp_all
    then have fl: "\<lfloor>r / SIZE_OF_GRIDS\<rfloor> = - 1"
      by (rule floor_unique)
    from q close e have lo: "31 \<le> vg"
      unfolding V_def by linarith
    have "vg \<le> Compute_val 32 (- (280 / 2 ^ 48)) (8738133 / 32768) (8738133 / 16384)"
      unfolding vg using below(2) by (intro Compute_val_mono) simp_all
    with grid_val_below_band have hi: "vg < 32"
      by linarith
    from lo hi have "of_int 31 \<le> vg" "vg < of_int 31 + 1"
      by simp_all
    then have "\<lfloor>vg\<rfloor> = 31"
      by (rule floor_unique)
    moreover from lo hi have "to_int vg = Some \<lfloor>vg\<rfloor>"
      by (intro to_int_floor) simp_all
    ultimately have t: "to_int vg = Some (\<lfloor>r / SIZE_OF_GRIDS\<rfloor> + 32)"
      by (simp add: fl)
    from below e(2) have nc: "\<not> (- (280 / 2 ^ 48) < r \<and> r < 0)"
      by linarith
    from t show ?thesis
      unfolding if_not_P [OF nc] .
  next
    case band
    have "- (of_int 280 / 2 ^ 48) < r"
      using band(1) by simp
    from neg_float_step [OF F band(2) this] have "- (9175039 / 2 ^ 63) \<le> r"
      by simp
    then have "Compute_val 32 (- (9175039 / 2 ^ 63)) (8738133 / 32768) (8738133 / 16384) \<le> vg"
      unfolding vg by (intro Compute_val_mono) simp_all
    with grid_val_in_band have lo: "32 \<le> vg"
      by linarith
    have "r / SIZE_OF_GRIDS < 0"
      using band(2) by (simp add: SIZE_OF_GRIDS_eq field_simps)
    with close e have hi: "vg < 33"
      unfolding V_def by linarith
    from lo hi have "of_int 32 \<le> vg" "vg < of_int 32 + 1"
      by simp_all
    then have "\<lfloor>vg\<rfloor> = 32"
      by (rule floor_unique)
    moreover from lo hi have "to_int vg = Some \<lfloor>vg\<rfloor>"
      by (intro to_int_floor) simp_all
    ultimately have t: "to_int vg = Some 32"
      by simp
    from band have c: "- (280 / 2 ^ 48) < r \<and> r < 0"
      by simp
    from t show ?thesis
      unfolding if_P [OF c] .
  qed
  then show ?thesis
    by (simp add: vg_def)
qed

lemma cell_val_close_cell:
  assumes "\<bar>r\<bar> \<le> 8737877 / 512"
  shows "\<bar>Compute_val CENTER_GRID_CELL_ID r CENTER_GRID_CELL_OFFSET SIZE_OF_GRID_CELL
           - (r / SIZE_OF_GRID_CELL + 256)\<bar> \<le> 1 / 2 ^ 40"
proof -
  have "r / SIZE_OF_GRID_CELL + 256 = 8 * (r / SIZE_OF_GRIDS + 32)"
    by (simp add: SIZE_OF_GRID_CELL_eq SIZE_OF_GRIDS_eq field_simps)
  with cell_val_close [OF assms] show ?thesis
    by (simp only:)
qed

lemma cell_band:
  assumes B: "\<bar>r\<bar> \<le> 8737877 / 512"
    and lo: "1 / 2 ^ 37 \<le> frac (r / SIZE_OF_GRID_CELL)"
    and hi: "frac (r / SIZE_OF_GRID_CELL) \<le> 1 - 1 / 2 ^ 37"
  shows "to_int (Compute_val CENTER_GRID_CELL_ID r CENTER_GRID_CELL_OFFSET SIZE_OF_GRID_CELL)
     = Some (\<lfloor>r / SIZE_OF_GRID_CELL\<rfloor> + 256)"
proof -
  define vc where "vc = Compute_val CENTER_GRID_CELL_ID r CENTER_GRID_CELL_OFFSET SIZE_OF_GRID_CELL"
  define V where "V = r / SIZE_OF_GRID_CELL + 256"
  define n where "n = \<lfloor>r / SIZE_OF_GRID_CELL\<rfloor> + 256"
  have e: "(1::rat) / 2 ^ 40 < 1 / 2 ^ 37"
    by simp
  have fr: "frac (r / SIZE_OF_GRID_CELL)
      = r / SIZE_OF_GRID_CELL - of_int \<lfloor>r / SIZE_OF_GRID_CELL\<rfloor>"
    by (simp add: frac_def)
  have nn: "(of_int n :: rat) = of_int \<lfloor>r / SIZE_OF_GRID_CELL\<rfloor> + 256"
    by (simp add: n_def)
  have Vn: "of_int n + 1 / 2 ^ 37 \<le> V" "V \<le> of_int n + 1 - 1 / 2 ^ 37"
    using lo hi unfolding V_def nn fr by linarith+
  have c: "\<bar>vc - V\<bar> \<le> 1 / 2 ^ 40"
    unfolding vc_def V_def by (rule cell_val_close_cell [OF B])
  from e Vn c have "of_int n \<le> vc" "vc < of_int n + 1"
    by linarith+
  then have fl: "\<lfloor>vc\<rfloor> = n"
    by (rule floor_unique)
  have "0 \<le> vc" "vc < 2 ^ 31"
    using cell_val_range [OF B] by (simp_all add: vc_def)
  then have "to_int vc = Some \<lfloor>vc\<rfloor>"
    by (rule to_int_floor)
  then have "to_int vc = Some n"
    by (simp only: fl)
  then show ?thesis
    unfolding vc_def n_def .
qed

lemma cell_val_exact_multiple:
  assumes x: "x = of_int m * (8738133 / 131072)" and m: "\<bar>m\<bar> \<le> 255"
  shows "Compute_val 256 x (8738133 / 262144) (8738133 / 131072) = of_int m + 256"
proof -
  have k: "\<bar>(2 * m - 1) * 8738133\<bar> < 2 ^ 53" "\<bar>2 * m - 1\<bar> < 2 ^ 53"
    "\<bar>2 * m + 511\<bar> < 2 ^ 53" "\<bar>m + 256\<bar> < 2 ^ 53"
    using m by (simp_all add: abs_mult)
  have d: "round64 (x - 8738133 / 262144) = of_int ((2 * m - 1) * 8738133) * 2 powi (- 18)"
    using k(1) by (intro round64_exact_eq [where k = "(2 * m - 1) * 8738133" and e = "- 18"])
      (simp_all add: x field_simps)
  have q: "round64 (of_int ((2 * m - 1) * 8738133) * 2 powi (- 18) / (8738133 / 131072))
      = of_int (2 * m - 1) * 2 powi (- 1)"
    using k(2) by (intro round64_exact_eq [where k = "2 * m - 1" and e = "- 1"])
      (simp_all add: field_simps)
  have a: "round64 (of_int (2 * m - 1) * 2 powi (- 1) + of_int 256)
      = of_int (2 * m + 511) * 2 powi (- 1)"
    using k(3) by (intro round64_exact_eq [where k = "2 * m + 511" and e = "- 1"])
      (simp_all add: field_simps)
  have v: "round64 (of_int (2 * m + 511) * 2 powi (- 1) + 1 / 2) = of_int (m + 256) * 2 powi 0"
    using k(4) by (intro round64_exact_eq [where k = "m + 256" and e = 0])
      (simp_all add: field_simps)
  show ?thesis
    unfolding Compute_val_def d q a v by simp
qed

lemma frac_band_small_cell:
  assumes lo: "1 / 2 ^ 27 \<le> \<bar>r\<bar>" and hi: "\<bar>r\<bar> \<le> 64"
  shows "1 / 2 ^ 37 \<le> frac (r / SIZE_OF_GRID_CELL)"
    and "frac (r / SIZE_OF_GRID_CELL) \<le> 1 - 1 / 2 ^ 37"
proof -
  define t where "t = r / (8738133 / 131072)"
  have t: "\<bar>t\<bar> \<le> 8388608 / 8738133" "1 / (2 ^ 10 * 8738133) \<le> \<bar>t\<bar>"
    using lo hi by (simp_all add: t_def abs_divide field_simps)
  have "1 / 2 ^ 37 \<le> frac t \<and> frac t \<le> 1 - 1 / 2 ^ 37"
  proof (cases "0 \<le> t")
    case True
    with t have "\<lfloor>t\<rfloor> = 0"
      by (intro floor_unique) simp_all
    then have "frac t = t"
      by (simp add: frac_def)
    with True t show ?thesis by simp
  next
    case False
    with t have "\<lfloor>t\<rfloor> = - 1"
      by (intro floor_unique) simp_all
    then have "frac t = t + 1"
      by (simp add: frac_def)
    with False t show ?thesis by simp
  qed
  then show "1 / 2 ^ 37 \<le> frac (r / SIZE_OF_GRID_CELL)"
    and "frac (r / SIZE_OF_GRID_CELL) \<le> 1 - 1 / 2 ^ 37"
    by (simp_all add: t_def SIZE_OF_GRID_CELL_eq)
qed

lemma frac_band_multiple_cell:
  assumes K: "r * 2 ^ 17 = of_int K" and nz: "K mod 8738133 \<noteq> 0"
  shows "1 / 2 ^ 37 \<le> frac (r / SIZE_OF_GRID_CELL)"
    and "frac (r / SIZE_OF_GRID_CELL) \<le> 1 - 1 / 2 ^ 37"
proof -
  have q: "r / (8738133 / 131072) = of_int K / of_int 8738133"
    using K by (simp add: field_simps)
  have fl: "\<lfloor>(of_int K :: rat) / of_int 8738133\<rfloor> = K div 8738133"
    by (rule floor_divide_of_int_eq)
  have "K = 8738133 * (K div 8738133) + K mod 8738133"
    by simp
  then have "(of_int K :: rat) = 8738133 * of_int (K div 8738133) + of_int (K mod 8738133)"
    by (metis of_int_add of_int_mult of_int_numeral)
  then have fr: "frac ((of_int K :: rat) / of_int 8738133) = of_int (K mod 8738133) / 8738133"
    unfolding frac_def fl by (simp add: field_simps)
  have "0 \<le> K mod 8738133" "K mod 8738133 < 8738133"
    by simp_all
  with nz have "1 \<le> K mod 8738133" "K mod 8738133 \<le> 8738132"
    by linarith+
  then have "(1::rat) \<le> of_int (K mod 8738133)" "(of_int (K mod 8738133) :: rat) \<le> 8738132"
    by (simp_all only: of_int_le_iff [symmetric, where ?'a = rat] of_int_1 of_int_numeral)
  then have b: "1 / 2 ^ 37 \<le> (of_int (K mod 8738133) :: rat) / 8738133"
    "(of_int (K mod 8738133) :: rat) / 8738133 \<le> 1 - 1 / 2 ^ 37"
    by (simp_all add: field_simps)
  have eq: "frac (r / SIZE_OF_GRID_CELL) = of_int (K mod 8738133) / 8738133"
    by (simp only: SIZE_OF_GRID_CELL_eq q fr)
  show "1 / 2 ^ 37 \<le> frac (r / SIZE_OF_GRID_CELL)"
    and "frac (r / SIZE_OF_GRID_CELL) \<le> 1 - 1 / 2 ^ 37"
    unfolding eq by (rule b)+
qed

lemma cell_component:
  assumes B: "\<bar>r\<bar> \<le> 8737877 / 512" and F: "is_float32 r"
  shows "to_int (Compute_val CENTER_GRID_CELL_ID r CENTER_GRID_CELL_OFFSET SIZE_OF_GRID_CELL)
     = Some (if - (267 / 2 ^ 48) < r \<and> r < 0 then 256 else \<lfloor>r / SIZE_OF_GRID_CELL\<rfloor> + 256)"
proof -
  define vc where "vc = Compute_val CENTER_GRID_CELL_ID r CENTER_GRID_CELL_OFFSET SIZE_OF_GRID_CELL"
  define V where "V = r / SIZE_OF_GRID_CELL + 256"
  have vc: "vc = Compute_val 256 r (8738133 / 262144) (8738133 / 131072)"
    by (simp add: vc_def CENTER_GRID_CELL_ID_eq CENTER_GRID_CELL_OFFSET_eq SIZE_OF_GRID_CELL_eq)
  have close: "\<bar>vc - V\<bar> \<le> 1 / 2 ^ 40"
    unfolding vc_def V_def by (rule cell_val_close_cell [OF B])
  have e: "(1::rat) / 2 ^ 40 < 1 / 4" "(267::rat) / 2 ^ 48 \<le> 1 / 2 ^ 27"
    "(1::rat) / 2 ^ 27 < 64"
    by simp_all
  consider (big) "64 < \<bar>r\<bar>"
    | (small) "1 / 2 ^ 27 \<le> \<bar>r\<bar>" "\<bar>r\<bar> \<le> 64"
    | (tiny) "0 \<le> r" "r < 1 / 2 ^ 27"
    | (below) "- (1 / 2 ^ 27) < r" "r \<le> - (267 / 2 ^ 48)"
    | (band) "- (267 / 2 ^ 48) < r" "r < 0"
    by linarith
  then have "to_int vc
     = Some (if - (267 / 2 ^ 48) < r \<and> r < 0 then 256 else \<lfloor>r / SIZE_OF_GRID_CELL\<rfloor> + 256)"
  proof cases
    case big
    from big e(2,3) have nc: "\<not> (- (267 / 2 ^ 48) < r \<and> r < 0)"
      by linarith
    from big have "2 powi 6 \<le> \<bar>r\<bar>"
      by simp
    from float32_on_grid [OF F this] obtain K where "r = of_int K * 2 powi (- 17)"
      by auto
    then have K: "r * 2 ^ 17 = of_int K"
      by (simp add: power_int_minus_divide)
    have t: "to_int vc = Some (\<lfloor>r / SIZE_OF_GRID_CELL\<rfloor> + 256)"
    proof (cases "K mod 8738133 = 0")
      case False
      from cell_band [OF B frac_band_multiple_cell [OF K False]] show ?thesis
        by (simp add: vc_def)
    next
      case True
      define m where "m = K div 8738133"
      from True have "K = 8738133 * m"
        by (auto simp: m_def)
      with K have "r * 2 ^ 17 = 8738133 * of_int m"
        by simp
      then have r: "r = of_int m * (8738133 / 131072)"
        by (simp add: field_simps)
      have "\<bar>of_int m :: rat\<bar> * (8738133 / 131072) \<le> 8737877 / 512"
        using B by (simp add: r abs_mult)
      then have "\<bar>of_int m :: rat\<bar> < 256"
        by (simp add: field_simps)
      then have "(of_int \<bar>m\<bar> :: rat) < of_int 256"
        by simp
      then have "\<bar>m\<bar> < 256"
        by (simp only: of_int_less_iff)
      then have m: "\<bar>m\<bar> \<le> 255"
        by simp
      have fl: "\<lfloor>r / SIZE_OF_GRID_CELL\<rfloor> = m"
        by (simp add: r SIZE_OF_GRID_CELL_eq)
      have v: "vc = of_int (m + 256)"
        using cell_val_exact_multiple [OF r m] by (simp add: vc)
      have "(0::rat) \<le> of_int (m + 256)" "(of_int (m + 256) :: rat) < 2 ^ 31"
        using m by simp_all
      then have "to_int (of_int (m + 256)) = Some \<lfloor>(of_int (m + 256) :: rat)\<rfloor>"
        by (rule to_int_floor)
      then show ?thesis
        unfolding v fl by simp
    qed
    then show ?thesis
      unfolding if_not_P [OF nc] .
  next
    case small
    from small e(2) have nc: "\<not> (- (267 / 2 ^ 48) < r \<and> r < 0)"
      by linarith
    from cell_band [OF B frac_band_small_cell [OF small]]
    have "to_int vc = Some (\<lfloor>r / SIZE_OF_GRID_CELL\<rfloor> + 256)"
      by (simp add: vc_def)
    then show ?thesis
      unfolding if_not_P [OF nc] .
  next
    case tiny
    from tiny have nc: "\<not> (- (267 / 2 ^ 48) < r \<and> r < 0)"
      by linarith
    have q: "0 \<le> r / SIZE_OF_GRID_CELL" "r / SIZE_OF_GRID_CELL < 1 / 4"
      using tiny by (simp_all add: SIZE_OF_GRID_CELL_eq field_simps)
    from q(2) have "r / SIZE_OF_GRID_CELL < 1"
      by linarith
    with q(1) have "of_int 0 \<le> r / SIZE_OF_GRID_CELL" "r / SIZE_OF_GRID_CELL < of_int 0 + 1"
      by simp_all
    then have fl: "\<lfloor>r / SIZE_OF_GRID_CELL\<rfloor> = 0"
      by (rule floor_unique)
    have lo: "256 \<le> vc"
      using cell_val_ge_center [OF tiny(1)] by (simp add: vc)
    from q close e have hi: "vc < 257"
      unfolding V_def by linarith
    from lo hi have "of_int 256 \<le> vc" "vc < of_int 256 + 1"
      by simp_all
    then have "\<lfloor>vc\<rfloor> = 256"
      by (rule floor_unique)
    moreover from lo hi have "to_int vc = Some \<lfloor>vc\<rfloor>"
      by (intro to_int_floor) simp_all
    ultimately have "to_int vc = Some (\<lfloor>r / SIZE_OF_GRID_CELL\<rfloor> + 256)"
      by (simp add: fl)
    then show ?thesis
      unfolding if_not_P [OF nc] .
  next
    case below
    from below have nc: "\<not> (- (267 / 2 ^ 48) < r \<and> r < 0)"
      by linarith
    have q: "- (1 / 4) \<le> r / SIZE_OF_GRID_CELL" "r / SIZE_OF_GRID_CELL < 0"
      using below by (simp_all add: SIZE_OF_GRID_CELL_eq field_simps)
    then have "of_int (- 1) \<le> r / SIZE_OF_GRID_CELL" "r / SIZE_OF_GRID_CELL < of_int (- 1) + 1"
      by simp_all
    then have fl: "\<lfloor>r / SIZE_OF_GRID_CELL\<rfloor> = - 1"
      by (rule floor_unique)
    from q close e have lo: "255 \<le> vc"
      unfolding V_def by linarith
    have "vc \<le> Compute_val 256 (- (267 / 2 ^ 48)) (8738133 / 262144) (8738133 / 131072)"
      unfolding vc using below(2) by (intro Compute_val_mono) simp_all
    with cell_val_in_band have hi: "vc < 256"
      by linarith
    from lo hi have "of_int 255 \<le> vc" "vc < of_int 255 + 1"
      by simp_all
    then have "\<lfloor>vc\<rfloor> = 255"
      by (rule floor_unique)
    moreover from lo hi have "to_int vc = Some \<lfloor>vc\<rfloor>"
      by (intro to_int_floor) simp_all
    ultimately have "to_int vc = Some (\<lfloor>r / SIZE_OF_GRID_CELL\<rfloor> + 256)"
      by (simp add: fl)
    then show ?thesis
      unfolding if_not_P [OF nc] .
  next
    case band
    from band have c: "- (267 / 2 ^ 48) < r \<and> r < 0"
      by simp
    have "- (of_int 267 / 2 ^ 48) < r"
      using band(1) by simp
    from neg_float_step [OF F band(2) this] have "- (8749055 / 2 ^ 63) \<le> r"
      by simp
    then have "Compute_val 256 (- (8749055 / 2 ^ 63)) (8738133 / 262144) (8738133 / 131072) \<le> vc"
      unfolding vc by (intro Compute_val_mono) simp_all
    with cell_val_above_band have lo: "256 \<le> vc"
      by linarith
    have "r / SIZE_OF_GRID_CELL < 0"
      using band(2) by (simp add: SIZE_OF_GRID_CELL_eq field_simps)
    with close e have hi: "vc < 257"
      unfolding V_def by linarith
    from lo hi have "of_int 256 \<le> vc" "vc < of_int 256 + 1"
      by simp_all
    then have "\<lfloor>vc\<rfloor> = 256"
      by (rule floor_unique)
    moreover from lo hi have "to_int vc = Some \<lfloor>vc\<rfloor>"
      by (intro to_int_floor) simp_all
    ultimately have "to_int vc = Some 256"
      by simp
    then show ?thesis
      unfolding if_P [OF c] .
  qed
  then show ?thesis
    by (simp add: vc_def)
qed


















lemma floor_just_below_zero:
  assumes "- (1 / 2 ^ 27) < r" and "r < 0"
  shows "\<lfloor>r / SIZE_OF_GRIDS\<rfloor> = - 1" and "\<lfloor>r / SIZE_OF_GRID_CELL\<rfloor> = - 1"
proof -
  have "- 1 \<le> r / SIZE_OF_GRIDS" "r / SIZE_OF_GRIDS < 0"
    using assms by (simp_all add: SIZE_OF_GRIDS_eq field_simps)
  then have "of_int (- 1) \<le> r / SIZE_OF_GRIDS" "r / SIZE_OF_GRIDS < of_int (- 1) + 1"
    by simp_all
  then show "\<lfloor>r / SIZE_OF_GRIDS\<rfloor> = - 1"
    by (rule floor_unique)
  have "- 1 \<le> r / SIZE_OF_GRID_CELL" "r / SIZE_OF_GRID_CELL < 0"
    using assms by (simp_all add: SIZE_OF_GRID_CELL_eq field_simps)
  then have "of_int (- 1) \<le> r / SIZE_OF_GRID_CELL" "r / SIZE_OF_GRID_CELL < of_int (- 1) + 1"
    by simp_all
  then show "\<lfloor>r / SIZE_OF_GRID_CELL\<rfloor> = - 1"
    by (rule floor_unique)
qed














lemma floor_cell_div8:
  "(\<lfloor>r / SIZE_OF_GRID_CELL\<rfloor> + 256) div 8 = \<lfloor>r / SIZE_OF_GRIDS\<rfloor> + 32"
proof -
  have "r / SIZE_OF_GRID_CELL = 8 * (r / SIZE_OF_GRIDS)"
    by (simp add: SIZE_OF_GRID_CELL_eq SIZE_OF_GRIDS_eq)
  then show ?thesis
    by (simp only:) linarith
qed

lemma nesting_component_exact:
  assumes B: "\<bar>r\<bar> \<le> 8737877 / 512" and F: "is_float32 r"
  shows "\<exists>tc tg.
      to_int (Compute_val CENTER_GRID_CELL_ID r CENTER_GRID_CELL_OFFSET SIZE_OF_GRID_CELL) = Some tc
    \<and> to_int (Compute_val CENTER_GRID_ID r CENTER_GRID_OFFSET SIZE_OF_GRIDS) = Some tg
    \<and> ((word_of_int tc :: uint32) div 8 = word_of_int tg
         \<longleftrightarrow> \<not> (- (280 / 2 ^ 48) < r \<and> r \<le> - (267 / 2 ^ 48)))"
proof -
  have e: "(267::rat) / 2 ^ 48 < 280 / 2 ^ 48" "(280::rat) / 2 ^ 48 \<le> 1 / 2 ^ 27"
    by simp_all
  consider (inner) "- (267 / 2 ^ 48) < r \<and> r < 0"
    | (gap) "- (280 / 2 ^ 48) < r \<and> r \<le> - (267 / 2 ^ 48)"
    | (outer) "\<not> (- (280 / 2 ^ 48) < r \<and> r < 0)"
    by linarith
  then show ?thesis
  proof cases
    case inner
    with e have g: "- (280 / 2 ^ 48) < r \<and> r < 0"
      by linarith
    from inner have n: "\<not> (- (280 / 2 ^ 48) < r \<and> r \<le> - (267 / 2 ^ 48))"
      by linarith
    from cell_component [OF B F]
    have tc: "to_int (Compute_val CENTER_GRID_CELL_ID r CENTER_GRID_CELL_OFFSET SIZE_OF_GRID_CELL)
        = Some 256"
      unfolding if_P [OF inner] .
    from grid_component [OF B F]
    have tg: "to_int (Compute_val CENTER_GRID_ID r CENTER_GRID_OFFSET SIZE_OF_GRIDS) = Some 32"
      unfolding if_P [OF g] .
    have "(word_of_int 256 :: uint32) div 8 = word_of_int 32"
      by simp
    with tc tg n show ?thesis
      by blast
  next
    case gap
    with e have g: "- (280 / 2 ^ 48) < r \<and> r < 0" and nc: "\<not> (- (267 / 2 ^ 48) < r \<and> r < 0)"
      by linarith+
    from gap e have "- (1 / 2 ^ 27) < r" "r < 0"
      by linarith+
    then have fl: "\<lfloor>r / SIZE_OF_GRID_CELL\<rfloor> = - 1"
      by (rule floor_just_below_zero)
    from cell_component [OF B F]
    have "to_int (Compute_val CENTER_GRID_CELL_ID r CENTER_GRID_CELL_OFFSET SIZE_OF_GRID_CELL)
        = Some (\<lfloor>r / SIZE_OF_GRID_CELL\<rfloor> + 256)"
      unfolding if_not_P [OF nc] .
    then have tc: "to_int (Compute_val CENTER_GRID_CELL_ID r CENTER_GRID_CELL_OFFSET
        SIZE_OF_GRID_CELL) = Some 255"
      by (simp add: fl)
    from grid_component [OF B F]
    have tg: "to_int (Compute_val CENTER_GRID_ID r CENTER_GRID_OFFSET SIZE_OF_GRIDS) = Some 32"
      unfolding if_P [OF g] .
    have "(word_of_int 255 :: uint32) div 8 \<noteq> word_of_int 32"
      by simp
    with tc tg gap show ?thesis
      by blast
  next
    case outer
    with e have nc: "\<not> (- (267 / 2 ^ 48) < r \<and> r < 0)"
      and n: "\<not> (- (280 / 2 ^ 48) < r \<and> r \<le> - (267 / 2 ^ 48))"
      by linarith+
    define k where "k = \<lfloor>r / SIZE_OF_GRID_CELL\<rfloor> + 256"
    from cell_component [OF B F]
    have tc: "to_int (Compute_val CENTER_GRID_CELL_ID r CENTER_GRID_CELL_OFFSET SIZE_OF_GRID_CELL)
        = Some k"
      unfolding if_not_P [OF nc] k_def .
    from grid_component [OF B F]
    have tg: "to_int (Compute_val CENTER_GRID_ID r CENTER_GRID_OFFSET SIZE_OF_GRIDS)
        = Some (\<lfloor>r / SIZE_OF_GRIDS\<rfloor> + 32)"
      unfolding if_not_P [OF outer] .
    have "0 \<le> r / SIZE_OF_GRID_CELL + of_int 256" "r / SIZE_OF_GRID_CELL + of_int 256 < of_int 512"
      using B by (simp_all add: SIZE_OF_GRID_CELL_eq abs_le_iff field_simps)
    then have "0 \<le> \<lfloor>r / SIZE_OF_GRID_CELL + of_int 256\<rfloor>"
      "\<lfloor>r / SIZE_OF_GRID_CELL + of_int 256\<rfloor> < 512"
      by (simp_all only: zero_le_floor floor_less_iff)
    then have "0 \<le> k" "k < 2 ^ 31"
      by (simp_all add: k_def)
    then have "(word_of_int k :: uint32) div 8 = word_of_int (k div 8)"
      by (rule word_of_int_div8)
    also have "k div 8 = \<lfloor>r / SIZE_OF_GRIDS\<rfloor> + 32"
      unfolding k_def by (rule floor_cell_div8)
    finally have "(word_of_int k :: uint32) div 8 = word_of_int (\<lfloor>r / SIZE_OF_GRIDS\<rfloor> + 32)" .
    with tc tg n show ?thesis
      by blast
  qed
qed

text \<open>
  Claim C7, as amended. For every valid \<open>float\<close> position \<open>(x, y)\<close>, a component of
  \<open>ComputeCellCoord(x, y)\<close> divided by \<open>MAX_NUMBER_OF_CELLS\<close> (8, integer division)
  equals the corresponding component of \<open>ComputeGridCoord(x, y)\<close> exactly when the
  coordinate \<open>c\<close> does not satisfy \<open>- 280 / 2 ^ 48 < c \<le> - 267 / 2 ^ 48\<close>.
\<close>

theorem C7_nesting_except_band:
  assumes v: "IsValidMapCoord_xy (Finite xr) (Finite yr)"
    and f: "is_float32 xr" "is_float32 yr"
  shows "\<exists>c g. ComputeCellCoord (Finite xr) (Finite yr) = Some c
             \<and> ComputeGridCoord (Finite xr) (Finite yr) = Some g
             \<and> (x_coord c div word_of_int MAX_NUMBER_OF_CELLS = x_coord g
                  \<longleftrightarrow> \<not> (- (280 / 2 ^ 48) < xr \<and> xr \<le> - (267 / 2 ^ 48)))
             \<and> (y_coord c div word_of_int MAX_NUMBER_OF_CELLS = y_coord g
                  \<longleftrightarrow> \<not> (- (280 / 2 ^ 48) < yr \<and> yr \<le> - (267 / 2 ^ 48)))"
proof -
  from v have B: "\<bar>xr\<bar> \<le> 8737877 / 512" "\<bar>yr\<bar> \<le> 8737877 / 512"
    by (simp_all add: IsValidMapCoord_xy_def IsValidMapCoord_iff)
  from nesting_component_exact [OF B(1) f(1)] obtain cx gx where
    X: "to_int (Compute_val CENTER_GRID_CELL_ID xr CENTER_GRID_CELL_OFFSET SIZE_OF_GRID_CELL) = Some cx"
       "to_int (Compute_val CENTER_GRID_ID xr CENTER_GRID_OFFSET SIZE_OF_GRIDS) = Some gx"
       "(word_of_int cx :: uint32) div 8 = word_of_int gx
          \<longleftrightarrow> \<not> (- (280 / 2 ^ 48) < xr \<and> xr \<le> - (267 / 2 ^ 48))"
    by blast
  from nesting_component_exact [OF B(2) f(2)] obtain cy gy where
    Y: "to_int (Compute_val CENTER_GRID_CELL_ID yr CENTER_GRID_CELL_OFFSET SIZE_OF_GRID_CELL) = Some cy"
       "to_int (Compute_val CENTER_GRID_ID yr CENTER_GRID_OFFSET SIZE_OF_GRIDS) = Some gy"
       "(word_of_int cy :: uint32) div 8 = word_of_int gy
          \<longleftrightarrow> \<not> (- (280 / 2 ^ 48) < yr \<and> yr \<le> - (267 / 2 ^ 48))"
    by blast
  have g: "ComputeGridCoord (Finite xr) (Finite yr)
      = Some \<lparr>x_coord = word_of_int gx, y_coord = word_of_int gy\<rparr>"
    using X(2) Y(2) by (simp add: ComputeGridCoord_def Compute_Finite SIZE_OF_GRIDS_nz)
  have c: "ComputeCellCoord (Finite xr) (Finite yr)
      = Some \<lparr>x_coord = word_of_int cx, y_coord = word_of_int cy\<rparr>"
    using X(1) Y(1) by (simp add: ComputeCellCoord_def Compute_Finite SIZE_OF_GRID_CELL_nz)
  show ?thesis
    unfolding g c using X(3) Y(3) by (simp add: MAX_NUMBER_OF_CELLS_word)
qed

text \<open>
  The instance at the position (100, - 200).
\<close>

theorem C7_nesting_except_band_witness:
  "IsValidMapCoord_xy (Finite 100) (Finite (- 200))
   \<and> is_float32 100 \<and> is_float32 (- 200)
   \<and> (\<exists>c g. ComputeCellCoord (Finite 100) (Finite (- 200)) = Some c
         \<and> ComputeGridCoord (Finite 100) (Finite (- 200)) = Some g
         \<and> x_coord c div word_of_int MAX_NUMBER_OF_CELLS = x_coord g
         \<and> y_coord c div word_of_int MAX_NUMBER_OF_CELLS = y_coord g)"
proof -
  have v: "IsValidMapCoord_xy (Finite 100) (Finite (- 200))"
    by (simp add: IsValidMapCoord_xy_def IsValidMapCoord_iff)
  have f: "is_float32 100" "is_float32 (- 200)"
    by code_simp+
  from C7_nesting_except_band [OF v f] v f show ?thesis
    by simp
qed

text \<open>
  Just below zero the two computations can round apart. At the valid \<open>float\<close> position
  \<open>x = - 267 / 2 ^ 48\<close> (about \<open>- 9.49 * 10 ^ - 13\<close>), \<open>y = 0\<close>, the grid computation
  rounds \<open>x_offset + 32\<close> up to 31.5 and returns grid 32, while the cell computation
  keeps \<open>x_offset + 256\<close> below 255.5 and returns cell 255, which lies in grid 31.
\<close>

theorem C7_counterexample:
  "IsValidMapCoord_xy (Finite (- 267 / 2 ^ 48)) (Finite 0)
   \<and> is_float32 (- 267 / 2 ^ 48) \<and> is_float32 0
   \<and> ComputeGridCoord (Finite (- 267 / 2 ^ 48)) (Finite 0) = Some \<lparr>x_coord = 32, y_coord = 32\<rparr>
   \<and> ComputeCellCoord (Finite (- 267 / 2 ^ 48)) (Finite 0) = Some \<lparr>x_coord = 255, y_coord = 256\<rparr>
   \<and> (255 :: uint32) div word_of_int MAX_NUMBER_OF_CELLS \<noteq> 32"
proof -
  have v: "IsValidMapCoord_xy (Finite (- 267 / 2 ^ 48)) (Finite 0)"
    by (simp add: IsValidMapCoord_xy_def IsValidMapCoord_iff)
  have f: "is_float32 (- 267 / 2 ^ 48)" "is_float32 0"
    by code_simp+
  have gx: "to_int (Compute_val 32 (- 267 / 2 ^ 48) (8738133 / 32768) (8738133 / 16384)) = Some 32"
    by code_simp
  have g0: "to_int (Compute_val 32 0 (8738133 / 32768) (8738133 / 16384)) = Some 32"
    by code_simp
  have cx: "to_int (Compute_val 256 (- 267 / 2 ^ 48) (8738133 / 262144) (8738133 / 131072)) = Some 255"
    by code_simp
  have c0: "to_int (Compute_val 256 0 (8738133 / 262144) (8738133 / 131072)) = Some 256"
    by code_simp
  have g: "ComputeGridCoord (Finite (- 267 / 2 ^ 48)) (Finite 0) = Some \<lparr>x_coord = 32, y_coord = 32\<rparr>"
    using gx g0
    by (simp add: ComputeGridCoord_def Compute_Finite SIZE_OF_GRIDS_nz CENTER_GRID_ID_eq
        CENTER_GRID_OFFSET_eq SIZE_OF_GRIDS_eq)
  have c: "ComputeCellCoord (Finite (- 267 / 2 ^ 48)) (Finite 0) = Some \<lparr>x_coord = 255, y_coord = 256\<rparr>"
    using cx c0
    by (simp add: ComputeCellCoord_def Compute_Finite SIZE_OF_GRID_CELL_nz CENTER_GRID_CELL_ID_eq
        CENTER_GRID_CELL_OFFSET_eq SIZE_OF_GRID_CELL_eq)
  show ?thesis
    using v f g c by (simp add: MAX_NUMBER_OF_CELLS_word)
qed

text \<open>
  Claim C9. For every \<open>(x, y)\<close>, the overload of \<open>ComputeCellCoord\<close> that also computes
  the offsets returns the same \<open>CellCoord\<close> as \<open>ComputeCellCoord(x, y)\<close>, and is
  undefined for the same arguments.
\<close>

theorem C9_offset_overload_agrees:
  "map_option fst (ComputeCellCoord_off x y) = ComputeCellCoord x y"
proof (cases x)
  case (Finite xr)
  show ?thesis
  proof (cases y)
    case (Finite yr)
    with \<open>x = Finite xr\<close> show ?thesis
      by (simp add: ComputeCellCoord_off_def ComputeCellCoord_def Compute_def Let_def
          SIZE_OF_GRID_CELL_nz split: option.splits)
  qed (simp_all add: ComputeCellCoord_off_def ComputeCellCoord_def Compute_def
      \<open>x = Finite xr\<close>)
qed (simp_all add: ComputeCellCoord_off_def ComputeCellCoord_def Compute_def)

end
